theory Spec2Isabelle
  imports Main "HOL-Library.Word"
begin

unbundle bit_operations_syntax

section \<open>The malloc debug option parser (libc/malloc_debug/Config.cpp)\<close>

text \<open>
  The theory embeds \<^verbatim>\<open>PropertyParser::Get\<close>, \<^verbatim>\<open>SetFeature\<close> and
  \<^verbatim>\<open>Config::SetFromProperties\<close>. \<^verbatim>\<open>size_t\<close> is \<open>'a word\<close> and
  \<^verbatim>\<open>long\<close> is the same word read with \<open>sint\<close> (both have the width of the ABI:
  32 bits on ILP32, 64 bits on LP64); \<^verbatim>\<open>uint64_t\<close> is \<open>64 word\<close>.
  The messages of \<^verbatim>\<open>error_log\<close> are returned as a list, in the order they are logged.
\<close>

subsection \<open>C strings and the character classes\<close>

text \<open>
  A \<^verbatim>\<open>const char*\<close> into the property buffer is the list of the characters from the
  pointer on. The buffer is zero-filled behind the text, so reading at the end of the list
  gives the terminator; \<^verbatim>\<open>++cur_\<close> is \<open>tl\<close>. Two pointers into the same buffer are
  equal when the lists have the same length.
\<close>

definition deref :: "string \<Rightarrow> char" where
  "deref cur = (case cur of [] \<Rightarrow> CHR 0x00 | c # _ \<Rightarrow> c)"

text \<open>The length of a C string: the number of characters in front of the terminator.\<close>

definition strlen :: "string \<Rightarrow> nat" where
  "strlen s = length (takeWhile (\<lambda>c. c \<noteq> CHR 0x00) s)"

text \<open>
  Modelled from the spec: \<^verbatim>\<open>isspace\<close> (libc's ctype, not under src/). The spec speaks of
  whitespace; these are the six whitespace characters of the C locale.
\<close>

definition isspace :: "char \<Rightarrow> bool" where
  "isspace c = (c = CHR '' '' \<or> c = CHR 0x09 \<or> c = CHR 0x0A \<or> c = CHR 0x0B
     \<or> c = CHR 0x0C \<or> c = CHR 0x0D)"

text \<open>
  Modelled from the spec: \<^verbatim>\<open>strtol\<close> with base 10 (libc's stdlib, not under src/), the
  "standard C numeric-parsing semantics" of the spec: leading whitespace is skipped, one
  optional sign is read, then the longest run of decimal digits (\<open>isdigit\<close>), whose
  value \<open>digits_value\<close> accumulates from the left. With no digit nothing is converted: the
  result is 0 and the end pointer is the start pointer. A value outside
  \<^verbatim>\<open>[LONG_MIN, LONG_MAX]\<close> is clamped and \<^verbatim>\<open>errno\<close> is set to \<^verbatim>\<open>ERANGE\<close>; the end
  pointer is then behind the digits all the same. The result is (value, end pointer,
  whether errno was set); \<^verbatim>\<open>Get\<close> clears \<^verbatim>\<open>errno\<close> before the call.
\<close>

definition isdigit :: "char \<Rightarrow> bool" where
  "isdigit c = (48 \<le> (of_char c :: nat) \<and> (of_char c :: nat) \<le> 57)"

fun digits_value :: "int \<Rightarrow> string \<Rightarrow> int" where
  "digits_value acc [] = acc"
| "digits_value acc (c # cs) = digits_value (acc * 10 + (of_char c - 48)) cs"

definition strtol :: "string \<Rightarrow> 'a::len word \<times> string \<times> bool" where
  "strtol nptr =
     (let s = dropWhile isspace nptr;
          neg = (deref s = CHR ''-'');
          s = (if deref s = CHR ''-'' \<or> deref s = CHR ''+'' then tl s else s);
          ds = takeWhile isdigit s;
          endp = dropWhile isdigit s;
          acc = (if neg then - digits_value 0 ds else digits_value 0 ds)
      in if ds = [] then (0, nptr, False)
         else if acc > 2 ^ (LENGTH('a) - 1) - 1 then (word_of_int (2 ^ (LENGTH('a) - 1) - 1), endp, True)
         else if acc < - (2 ^ (LENGTH('a) - 1)) then (word_of_int (- (2 ^ (LENGTH('a) - 1))), endp, True)
         else (word_of_int acc, endp, False))"

subsection \<open>Logged messages\<close>

text \<open>
  One constructor for each \<^verbatim>\<open>error_log\<close> call of the parser, with the arguments of its
  format string (the program name apart), and one for the usage text of \<^verbatim>\<open>LogUsage\<close>.
\<close>

datatype log_msg =
    BadValueErrno string
  | BadValue string
  | NonSpaceAfter string string
  | NegativeValue string int
  | ValueTooSmall string nat nat
  | ValueTooLarge string nat nat
  | TakesNoValue string
  | UnknownOption string
  | Usage

subsection \<open>PropertyParser\<close>

text \<open>
  The members \<^verbatim>\<open>cur_\<close> and \<^verbatim>\<open>done_\<close> of the class; the model drops the trailing
  underscore, which a name cannot end with here.
\<close>

record PropertyParser =
  cur :: string
  "done" :: bool

text \<open>
  \<^verbatim>\<open>PropertyParser::Get\<close>. The out-parameters \<^verbatim>\<open>property\<close>, \<^verbatim>\<open>value\<close> and
  \<^verbatim>\<open>value_set\<close> are passed in and returned, each changed where the source assigns it.
\<close>

definition name_char :: "char \<Rightarrow> bool" where
  "name_char c = (\<not> isspace c \<and> c \<noteq> CHR ''='' \<and> c \<noteq> CHR 0x00)"

definition Get :: "PropertyParser \<Rightarrow> string \<times> 'a::len word \<times> bool
    \<Rightarrow> bool \<times> PropertyParser \<times> (string \<times> 'a word \<times> bool) \<times> log_msg list" where
  "Get p out =
     (case out of (property, val, value_set) \<Rightarrow>
      let cur1 = dropWhile isspace (cur p) in
      if deref cur1 = CHR 0x00
      then (False, p\<lparr>cur := cur1, done := True\<rparr>, (property, val, value_set), [])
      else
        let property_start = cur1;
            cur2 = dropWhile name_char cur1;
            property = take (length property_start - length cur2) property_start;
            cur3 = dropWhile (\<lambda>c. isspace c \<and> c \<noteq> CHR ''='' \<and> c \<noteq> CHR 0x00) cur2
        in if deref cur3 = CHR ''=''
           then
             let cur4 = tl cur3 in
             (case strtol cur4 of (read_value, endp, errno_set) \<Rightarrow>
               if errno_set
               then (False, p\<lparr>cur := cur4\<rparr>, (property, val, True), [BadValueErrno property])
               else if length cur4 = length endp \<or> (\<not> isspace (deref endp) \<and> deref endp \<noteq> CHR 0x00)
               then (if length cur4 = length endp
                     then (False, p\<lparr>cur := cur4\<rparr>, (property, val, True), [BadValue property])
                     else (False, p\<lparr>cur := cur4\<rparr>, (property, val, True),
                             [NonSpaceAfter property endp]))
               else if sint read_value < 0
               then (False, p\<lparr>cur := cur4\<rparr>, (property, val, True),
                       [NegativeValue property (sint read_value)])
               else (True, p\<lparr>cur := endp\<rparr>, (property, read_value, True), []))
           else (True, p\<lparr>cur := cur3\<rparr>, (property, val, False), []))"

subsection \<open>Config and the feature table\<close>

text \<open>
  The option bits, \<^verbatim>\<open>MINIMUM_ALIGNMENT_BYTES\<close> and \<^verbatim>\<open>SIGRTMIN\<close> are declared in headers
  that are not under src/; they are parameters of the model.
\<close>

record (overloaded) 'a constants =
  FRONT_GUARD :: "64 word"
  REAR_GUARD :: "64 word"
  BACKTRACE :: "64 word"
  TRACK_ALLOCS :: "64 word"
  FILL_ON_ALLOC :: "64 word"
  FILL_ON_FREE :: "64 word"
  EXPAND_ALLOC :: "64 word"
  FREE_TRACK :: "64 word"
  LEAK_TRACK :: "64 word"
  MINIMUM_ALIGNMENT_BYTES :: "'a word"
  SIGRTMIN :: "32 word"

text \<open>
  \<^verbatim>\<open>Config\<close> is declared in Config.h, which is not under src/: the record has the fields
  that Config.cpp reads and writes, with the types of their use there.
\<close>

record (overloaded) 'a Config =
  options :: "64 word"
  front_guard_bytes :: "'a word"
  rear_guard_bytes :: "'a word"
  backtrace_enabled :: bool
  backtrace_enable_on_signal :: bool
  backtrace_signal :: "32 word"
  backtrace_frames :: "'a word"
  fill_on_alloc_bytes :: "'a word"
  fill_on_free_bytes :: "'a word"
  expand_alloc_bytes :: "'a word"
  free_track_allocations :: "'a word"
  free_track_backtrace_num_frames :: "'a word"
  fill_alloc_value :: "8 word"
  fill_free_value :: "8 word"
  front_guard_value :: "8 word"
  rear_guard_value :: "8 word"

text \<open>
  \<^verbatim>\<open>Feature::value\<close> and \<^verbatim>\<open>Feature::config\<close> are pointers to fields of the Config
  (or \<^verbatim>\<open>nullptr\<close>): the model names the field, and \<open>None\<close> is \<^verbatim>\<open>nullptr\<close>.
\<close>

datatype value_field =
    p_front_guard_bytes
  | p_rear_guard_bytes
  | p_backtrace_frames
  | p_fill_on_alloc_bytes
  | p_fill_on_free_bytes
  | p_expand_alloc_bytes
  | p_free_track_allocations
  | p_free_track_backtrace_num_frames

datatype config_field = p_backtrace_enabled | p_backtrace_enable_on_signal

fun store_value :: "value_field \<Rightarrow> 'a::len word \<Rightarrow> 'a Config \<Rightarrow> 'a Config" where
  "store_value p_front_guard_bytes v c = c\<lparr>front_guard_bytes := v\<rparr>"
| "store_value p_rear_guard_bytes v c = c\<lparr>rear_guard_bytes := v\<rparr>"
| "store_value p_backtrace_frames v c = c\<lparr>backtrace_frames := v\<rparr>"
| "store_value p_fill_on_alloc_bytes v c = c\<lparr>fill_on_alloc_bytes := v\<rparr>"
| "store_value p_fill_on_free_bytes v c = c\<lparr>fill_on_free_bytes := v\<rparr>"
| "store_value p_expand_alloc_bytes v c = c\<lparr>expand_alloc_bytes := v\<rparr>"
| "store_value p_free_track_allocations v c = c\<lparr>free_track_allocations := v\<rparr>"
| "store_value p_free_track_backtrace_num_frames v c = c\<lparr>free_track_backtrace_num_frames := v\<rparr>"

fun load_value :: "value_field \<Rightarrow> 'a::len Config \<Rightarrow> 'a word" where
  "load_value p_front_guard_bytes c = front_guard_bytes c"
| "load_value p_rear_guard_bytes c = rear_guard_bytes c"
| "load_value p_backtrace_frames c = backtrace_frames c"
| "load_value p_fill_on_alloc_bytes c = fill_on_alloc_bytes c"
| "load_value p_fill_on_free_bytes c = fill_on_free_bytes c"
| "load_value p_expand_alloc_bytes c = expand_alloc_bytes c"
| "load_value p_free_track_allocations c = free_track_allocations c"
| "load_value p_free_track_backtrace_num_frames c = free_track_backtrace_num_frames c"

fun store_config :: "config_field \<Rightarrow> bool \<Rightarrow> 'a::len Config \<Rightarrow> 'a Config" where
  "store_config p_backtrace_enabled b c = c\<lparr>backtrace_enabled := b\<rparr>"
| "store_config p_backtrace_enable_on_signal b c = c\<lparr>backtrace_enable_on_signal := b\<rparr>"

fun load_config :: "config_field \<Rightarrow> 'a::len Config \<Rightarrow> bool" where
  "load_config p_backtrace_enabled c = backtrace_enabled c"
| "load_config p_backtrace_enable_on_signal c = backtrace_enable_on_signal c"

record (overloaded) 'a Feature =
  name :: string
  default_value :: "'a word"
  min_value :: "'a word"
  max_value :: "'a word"
  option :: "64 word"
  "value" :: "value_field option"
  config :: "config_field option"
  combo_option :: bool

definition mkFeature :: "string \<Rightarrow> 'a::len word \<Rightarrow> 'a word \<Rightarrow> 'a word \<Rightarrow> 64 word
    \<Rightarrow> value_field option \<Rightarrow> config_field option \<Rightarrow> bool \<Rightarrow> 'a Feature" where
  "mkFeature n d lo hi opt v cf combo =
     \<lparr>name = n, default_value = d, min_value = lo, max_value = hi, option = opt,
      value = v, config = cf, combo_option = combo\<rparr>"

definition SIZE_MAX :: "'a::len word" where
  "SIZE_MAX = - 1"

definition features :: "'a::len constants \<Rightarrow> 'a Feature list" where
  "features K =
   [mkFeature ''guard'' 32 1 16384 0 None None True,
    mkFeature ''front_guard'' 32 1 16384 (FRONT_GUARD K) (Some p_front_guard_bytes) None True,
    mkFeature ''rear_guard'' 32 1 16384 (REAR_GUARD K) (Some p_rear_guard_bytes) None True,
    mkFeature ''backtrace'' 16 1 256 (BACKTRACE K OR TRACK_ALLOCS K) (Some p_backtrace_frames)
      (Some p_backtrace_enabled) False,
    mkFeature ''backtrace_enable_on_signal'' 16 1 256 (BACKTRACE K OR TRACK_ALLOCS K)
      (Some p_backtrace_frames) (Some p_backtrace_enable_on_signal) False,
    mkFeature ''fill'' SIZE_MAX 1 SIZE_MAX 0 None None True,
    mkFeature ''fill_on_alloc'' SIZE_MAX 1 SIZE_MAX (FILL_ON_ALLOC K) (Some p_fill_on_alloc_bytes)
      None True,
    mkFeature ''fill_on_free'' SIZE_MAX 1 SIZE_MAX (FILL_ON_FREE K) (Some p_fill_on_free_bytes)
      None True,
    mkFeature ''expand_alloc'' 16 1 16384 (EXPAND_ALLOC K) (Some p_expand_alloc_bytes) None False,
    mkFeature ''free_track'' 100 1 16384 (FREE_TRACK K OR FILL_ON_FREE K)
      (Some p_free_track_allocations) None False,
    mkFeature ''free_track_backtrace_num_frames'' 16 0 256 0
      (Some p_free_track_backtrace_num_frames) None False,
    mkFeature ''leak_track'' 0 0 0 (LEAK_TRACK K OR TRACK_ALLOCS K) None None False]"

subsection \<open>SetFeature\<close>

definition SetFeature :: "string \<Rightarrow> 'a::len Feature \<Rightarrow> 'a word \<Rightarrow> bool \<Rightarrow> 'a Config
    \<Rightarrow> bool \<times> 'a Config \<times> log_msg list" where
  "SetFeature nm feature val value_set this =
     (let this = (case config feature of Some p \<Rightarrow> store_config p True this | None \<Rightarrow> this)
      in case value feature of
           Some p \<Rightarrow>
             if value_set then
               if val < min_value feature
               then (False, this, [ValueTooSmall nm (unat (min_value feature)) (unat val)])
               else if val > max_value feature
               then (False, this, [ValueTooLarge nm (unat (max_value feature)) (unat val)])
               else (True, store_value p val this, [])
             else (True, store_value p (default_value feature) this, [])
         | None \<Rightarrow>
             if value_set then (False, this, [TakesNoValue nm]) else (True, this, []))"

subsection \<open>Config::SetFromProperties\<close>

text \<open>
  The inner \<^verbatim>\<open>for\<close> loop of a combo option, over the table entries behind the marker:
  it runs while the entries have \<^verbatim>\<open>combo_option\<close> set and returns \<^verbatim>\<open>valid\<close>.
\<close>

fun combo_loop :: "string \<Rightarrow> 'a::len Feature list \<Rightarrow> 'a word \<Rightarrow> bool \<Rightarrow> 'a Config
    \<Rightarrow> bool \<times> 'a Config \<times> log_msg list" where
  "combo_loop property [] val value_set this = (True, this, [])"
| "combo_loop property (f # fs) val value_set this =
     (if combo_option f then
        (case SetFeature property f val value_set this of
           (False, this', msgs) \<Rightarrow> (False, this', msgs)
         | (True, this', msgs) \<Rightarrow>
             (case combo_loop property fs val value_set (this'\<lparr>options := options this' OR option f\<rparr>) of
                (valid, this'', msgs') \<Rightarrow> (valid, this'', msgs @ msgs')))
      else (True, this, []))"

text \<open>
  The outer \<^verbatim>\<open>for\<close> loop over the table, from index \<open>i\<close> on (the list is the rest of the
  table). It returns \<^verbatim>\<open>valid\<close>, \<^verbatim>\<open>found\<close>, the Config and the messages.
\<close>

fun feature_loop :: "string \<Rightarrow> 'a::len Feature list \<Rightarrow> 'a word \<Rightarrow> bool \<Rightarrow> bool \<Rightarrow> 'a Config
    \<Rightarrow> bool \<times> bool \<times> 'a Config \<times> log_msg list" where
  "feature_loop property [] val value_set found this = (True, found, this, [])"
| "feature_loop property (f # fs) val value_set found this =
     (if property = name f then
        (if option f = 0 \<and> combo_option f then
           (case combo_loop property fs val value_set this of
              (False, this', msgs) \<Rightarrow> (False, found, this', msgs)
            | (True, this', msgs) \<Rightarrow> (True, True, this', msgs))
         else
           (case SetFeature property f val value_set this of
              (False, this', msgs) \<Rightarrow> (False, found, this', msgs)
            | (True, this', msgs) \<Rightarrow>
                (True, True, this'\<lparr>options := options this' OR option f\<rparr>, msgs)))
      else feature_loop property fs val value_set found this)"

subsection \<open>Termination of the token loop\<close>

lemma strtol_end_length: "strtol nptr = (v, endp, e) \<Longrightarrow> length endp \<le> length nptr"
proof -
  have "length (dropWhile isdigit (tl (dropWhile isspace nptr))) \<le> length nptr"
  proof -
    have "length (dropWhile isdigit (tl (dropWhile isspace nptr))) \<le> length (tl (dropWhile isspace nptr))"
      by (rule length_dropWhile_le)
    also have "\<dots> \<le> length (dropWhile isspace nptr)"
      by simp
    also have "\<dots> \<le> length nptr"
      by (rule length_dropWhile_le)
    finally show ?thesis .
  qed
  moreover have "length (dropWhile isdigit (dropWhile isspace nptr)) \<le> length nptr"
    by (meson le_trans length_dropWhile_le)
  ultimately show "strtol nptr = (v, endp, e) \<Longrightarrow> length endp \<le> length nptr"
    by (auto simp: strtol_def Let_def split: if_splits)
qed

lemma deref_dropWhile_name_char:
  "deref s \<noteq> CHR 0x00 \<Longrightarrow> deref (dropWhile name_char s) = CHR ''='' \<or> length (dropWhile name_char s) < length s
     \<or> isspace (deref s)"
  by (cases s) (auto simp: deref_def name_char_def intro: le_imp_less_Suc length_dropWhile_le)

lemma Get_shorter:
  assumes "Get p out = (True, p', out', msgs)"
  shows "length (cur p') < length (cur p)"
proof -
  obtain property val value_set where out: "out = (property, val, value_set)"
    by (cases out) auto
  define cur1 where "cur1 = dropWhile isspace (cur p)"
  define cur2 where "cur2 = dropWhile name_char cur1"
  define cur3 where "cur3 = dropWhile (\<lambda>c. isspace c \<and> c \<noteq> CHR ''='' \<and> c \<noteq> CHR 0x00) cur2"
  have l1: "length cur1 \<le> length (cur p)"
    by (simp add: cur1_def length_dropWhile_le)
  have l2: "length cur2 \<le> length cur1"
    by (simp add: cur2_def length_dropWhile_le)
  have l3: "length cur3 \<le> length cur2"
    by (simp add: cur3_def length_dropWhile_le)
  from assms have nz: "deref cur1 \<noteq> CHR 0x00"
    by (auto simp: Get_def out Let_def cur1_def split: if_splits)
  have nsp: "\<not> isspace (deref cur1)"
  proof (cases "cur p")
    case Nil
    then show ?thesis by (simp add: cur1_def deref_def isspace_def)
  next
    case (Cons c cs)
    show ?thesis
    proof (cases cur1)
      case Nil
      then show ?thesis by (simp add: deref_def isspace_def)
    next
      case (Cons d ds)
      then have "\<not> isspace d"
        using hd_dropWhile [of isspace "cur p"] by (simp add: cur1_def)
      with Cons show ?thesis by (simp add: deref_def)
    qed
  qed
  show ?thesis
  proof (cases "deref cur3 = CHR ''=''")
    case True
    then have ne: "cur3 \<noteq> []"
      by (auto simp: deref_def)
    obtain rv endp es where st: "(strtol (tl cur3) :: 'a word \<times> string \<times> bool) = (rv, endp, es)"
      by (cases "strtol (tl cur3) :: 'a word \<times> string \<times> bool") auto
    from assms True st have "cur p' = endp"
      by (auto simp: Get_def out Let_def cur1_def cur2_def cur3_def split: if_splits)
    moreover have "length endp \<le> length (tl cur3)"
      using st by (rule strtol_end_length)
    moreover have "length (tl cur3) < length cur3"
      using ne by (cases cur3) auto
    ultimately show ?thesis
      using l1 l2 l3 by simp
  next
    case False
    with assms nz have c: "cur p' = cur3"
      by (auto simp: Get_def out Let_def cur1_def cur2_def cur3_def split: if_splits prod.splits)
    have "deref cur2 \<noteq> CHR ''='' \<or> cur3 = cur2"
      by (cases cur2) (auto simp: cur3_def deref_def)
    moreover have "deref cur2 = CHR ''='' \<or> length cur2 < length cur1"
      using deref_dropWhile_name_char [OF nz] nsp by (auto simp: cur2_def)
    moreover have "cur3 = cur2 \<Longrightarrow> deref cur2 \<noteq> CHR ''=''"
      using False by simp
    ultimately have "length cur3 < length cur1"
      using l3 by (metis le_less_trans)
    then show ?thesis
      using c l1 by simp
  qed
qed

text \<open>
  The \<^verbatim>\<open>while (valid && parser.Get(...))\<close> loop, entered with \<^verbatim>\<open>valid\<close> true. The
  recursive call is the next iteration; it is reached only while \<^verbatim>\<open>valid\<close> is still
  true. The result is \<^verbatim>\<open>valid\<close>, the parser, the Config and the messages.
\<close>

function while_loop :: "'a::len Feature list \<Rightarrow> PropertyParser \<Rightarrow> string \<times> 'a word \<times> bool \<Rightarrow> bool
    \<Rightarrow> 'a Config \<Rightarrow> bool \<times> PropertyParser \<times> 'a Config \<times> log_msg list" where
  "while_loop fs p out found this =
     (case Get p out of
        (False, p', out', msgs) \<Rightarrow> (True, p', this, msgs)
      | (True, p', (property, val, value_set), msgs) \<Rightarrow>
          (case feature_loop property fs val value_set found this of
             (valid, found', this', msgs') \<Rightarrow>
               if valid \<and> \<not> found'
               then (False, p', this', msgs @ msgs' @ [UnknownOption property])
               else if valid
               then (case while_loop fs p' (property, val, value_set) found' this' of
                       (valid', p'', this'', msgs'') \<Rightarrow> (valid', p'', this'', msgs @ msgs' @ msgs''))
               else (False, p', this', msgs @ msgs')))"
  by pat_completeness auto
termination
proof (relation "measure (\<lambda>(fs, p, out, found, this). length (cur p))", goal_cases)
  case 1
  show ?case by simp
next
  case (2 fs p out found this x y xa ya xb yb)
  then have "Get p out = (True, xa, xb, yb)"
    by simp
  then have "length (cur xa) < length (cur p)"
    by (rule Get_shorter)
  then show ?case
    by simp
qed

declare while_loop.simps [simp del]

text \<open>
  Modelled from the spec: the macro \<^verbatim>\<open>BIONIC_ALIGN\<close> (private/bionic_macros.h, not under
  src/). The spec says that the front guard is rounded up to the minimum alignment; the model
  is the mask formula \<^verbatim>\<open>(value + alignment - 1) & ~(alignment - 1)\<close> on \<^verbatim>\<open>size_t\<close>, and
  \<open>BIONIC_ALIGN_round_up\<close> below shows that it rounds up when the alignment is a power of
  two.
\<close>

definition BIONIC_ALIGN :: "'a::len word \<Rightarrow> 'a word \<Rightarrow> 'a word" where
  "BIONIC_ALIGN v alignment = (v + alignment - 1) AND NOT (alignment - 1)"

text \<open>
  The two blocks of \<^verbatim>\<open>SetFromProperties\<close> around the loop: the default values set
  before the table is built, and the two adjustments made when the options are valid.
\<close>

definition initial_values :: "'a::len constants \<Rightarrow> 'a Config \<Rightarrow> 'a Config" where
  "initial_values K this =
     this\<lparr>fill_alloc_value := 0xeb, fill_free_value := 0xef,
          front_guard_value := 0xaa, rear_guard_value := 0xbb,
          backtrace_signal := SIGRTMIN K + 10,
          free_track_backtrace_num_frames := 16\<rparr>"

definition adjust :: "'a::len constants \<Rightarrow> 'a Config \<Rightarrow> 'a Config" where
  "adjust K this =
     (let this = (if options this AND FRONT_GUARD K \<noteq> 0
                  then this\<lparr>front_guard_bytes :=
                         BIONIC_ALIGN (front_guard_bytes this) (MINIMUM_ALIGNMENT_BYTES K)\<rparr>
                  else this)
      in if options this AND FILL_ON_FREE K \<noteq> 0 \<and> fill_on_free_bytes this = 0
         then this\<lparr>fill_on_free_bytes := SIZE_MAX\<rparr>
         else this)"

text \<open>
  Modelled from the spec: \<^verbatim>\<open>__system_property_get\<close> (libc's system properties, not under
  src/), the lookup whose failure the spec calls "no configuration requested". It copies
  the value of \<^verbatim>\<open>libc.debug.malloc.options\<close> into \<^verbatim>\<open>property_str\<close> and returns its
  length, 0 when the property is unset or empty. The model takes the value as its argument
  \<open>property_str\<close> and the call returns \<open>strlen property_str\<close>. The locals \<^verbatim>\<open>value\<close> and \<^verbatim>\<open>value_set\<close> are not
  initialised in the source; \<^verbatim>\<open>Get\<close> writes \<^verbatim>\<open>value_set\<close> before it is read, and
  \<^verbatim>\<open>SetFeature\<close> reads \<^verbatim>\<open>value\<close> only when \<^verbatim>\<open>value_set\<close> is true, so the model
  starts them at 0 and false.
\<close>

definition SetFromProperties :: "'a::len constants \<Rightarrow> string \<Rightarrow> 'a Config
    \<Rightarrow> bool \<times> 'a Config \<times> log_msg list" where
  "SetFromProperties K property_str this =
     (if strlen property_str = 0 then (False, this, [])
      else
        case while_loop (features K) \<lparr>cur = property_str, done = False\<rparr> ([], 0, False) False
               (initial_values K this) of
          (valid, parser, this, msgs) \<Rightarrow>
            let valid = (valid \<and> done parser) in
            if valid then (True, adjust K this, msgs)
            else (False, this, msgs @ [Usage]))"

text \<open>
  The state at the head of the \<^verbatim>\<open>while\<close> loop after \<open>n\<close> full iterations (parser,
  out-parameters, \<^verbatim>\<open>found\<close>, Config), or \<open>None\<close> when the loop has left before.
\<close>

fun loop_at :: "nat \<Rightarrow> 'a::len Feature list \<Rightarrow> PropertyParser \<Rightarrow> string \<times> 'a word \<times> bool \<Rightarrow> bool
    \<Rightarrow> 'a Config \<Rightarrow> (PropertyParser \<times> (string \<times> 'a word \<times> bool) \<times> bool \<times> 'a Config) option" where
  "loop_at 0 fs p out found this = Some (p, out, found, this)"
| "loop_at (Suc n) fs p out found this =
     (case Get p out of
        (False, p', out', msgs) \<Rightarrow> None
      | (True, p', (property, val, value_set), msgs) \<Rightarrow>
          (case feature_loop property fs val value_set found this of
             (valid, found', this', msgs') \<Rightarrow>
               if valid \<and> found' then loop_at n fs p' (property, val, value_set) found' this'
               else None))"

text \<open>
  One choice of the constants, for evaluating the model on concrete property strings: nine
  distinct bits, the 16-byte alignment of an LP64 build and a real-time signal base of 35.
  \<open>zero_Config\<close> is a Config whose fields are all zero.
\<close>

definition lp64 :: "64 constants" where
  "lp64 = \<lparr>FRONT_GUARD = 0x1, REAR_GUARD = 0x2, BACKTRACE = 0x4, TRACK_ALLOCS = 0x80,
     FILL_ON_ALLOC = 0x8, FILL_ON_FREE = 0x10, EXPAND_ALLOC = 0x20, FREE_TRACK = 0x40,
     LEAK_TRACK = 0x100, MINIMUM_ALIGNMENT_BYTES = 16, SIGRTMIN = 35\<rparr>"

definition zero_Config :: "'a::len Config" where
  "zero_Config = \<lparr>options = 0, front_guard_bytes = 0, rear_guard_bytes = 0,
     backtrace_enabled = False, backtrace_enable_on_signal = False, backtrace_signal = 0,
     backtrace_frames = 0, fill_on_alloc_bytes = 0, fill_on_free_bytes = 0,
     expand_alloc_bytes = 0, free_track_allocations = 0, free_track_backtrace_num_frames = 0,
     fill_alloc_value = 0, fill_free_value = 0, front_guard_value = 0, rear_guard_value = 0\<rparr>"

text \<open>
  The spec describes the option bit of a table entry as "0 if none": the entries that name an
  option carry a non-zero mask. \<open>nonzero_bits\<close> states this of the nine constants; with a
  zero mask an entry with \<^verbatim>\<open>combo_option\<close> set would be taken for a combo marker.
\<close>

definition nonzero_bits :: "'a::len constants \<Rightarrow> bool" where
  "nonzero_bits K = (FRONT_GUARD K \<noteq> 0 \<and> REAR_GUARD K \<noteq> 0 \<and> BACKTRACE K \<noteq> 0
     \<and> TRACK_ALLOCS K \<noteq> 0 \<and> FILL_ON_ALLOC K \<noteq> 0 \<and> FILL_ON_FREE K \<noteq> 0
     \<and> EXPAND_ALLOC K \<noteq> 0 \<and> FREE_TRACK K \<noteq> 0 \<and> LEAK_TRACK K \<noteq> 0)"

text \<open>The message \<^verbatim>\<open>SetFeature\<close> logs for a value outside the bounds of a feature.\<close>

definition range_msg :: "string \<Rightarrow> 'a::len Feature \<Rightarrow> 'a word \<Rightarrow> log_msg" where
  "range_msg nm f val =
     (if val < min_value f then ValueTooSmall nm (unat (min_value f)) (unat val)
      else ValueTooLarge nm (unat (max_value f)) (unat val))"

subsection \<open>Notions used in the statements and proofs\<close>

text \<open>
  The table entries that the loop hands to \<^verbatim>\<open>SetFeature\<close> for a token named
  \<open>property\<close>, as long as no call fails: the outer \<^verbatim>\<open>for\<close> loop stops at the first entry
  with that name; if it is a combo marker (\<^verbatim>\<open>option == 0 && combo_option\<close>) the inner loop
  takes the entries behind it while they have \<^verbatim>\<open>combo_option\<close> set, otherwise the entry
  itself is applied.
\<close>

fun applied :: "string \<Rightarrow> 'a::len Feature list \<Rightarrow> 'a Feature list" where
  "applied property [] = []"
| "applied property (f # fs) =
     (if property = name f then
        (if option f = 0 \<and> combo_option f then takeWhile combo_option fs else [f])
      else applied property fs)"

text \<open>
  The tokens that successive calls of \<^verbatim>\<open>Get\<close> return from a parser state on, up to the
  first call that returns false: each is the triple of out-parameters after the call.
\<close>

function tokens :: "PropertyParser \<Rightarrow> string \<times> 'a::len word \<times> bool \<Rightarrow> (string \<times> 'a word \<times> bool) list" where
  "tokens p out =
     (case Get p out of
        (False, p', out', msgs) \<Rightarrow> []
      | (True, p', out', msgs) \<Rightarrow> out' # tokens p' out')"
  by pat_completeness auto
termination
proof (relation "measure (\<lambda>(p, out). length (cur p))", goal_cases)
  case 1
  show ?case by simp
next
  case (2 p out x y xa ya xb yb)
  then have "Get p out = (True, xa, xb, yb)"
    by simp
  then have "length (cur xa) < length (cur p)"
    by (rule Get_shorter)
  then show ?case
    by simp
qed

declare tokens.simps [simp del]

text \<open>
  The value of a numeric field after a token, when the options in \<open>names\<close> are those that
  write the field and \<open>dflt\<close> is their default: the token's value or the default when
  the token names one of them, the old value otherwise.
\<close>

definition last_written :: "string set \<Rightarrow> 'a::len word \<Rightarrow> string \<times> 'a word \<times> bool \<Rightarrow> 'a word \<Rightarrow> 'a word" where
  "last_written names dflt t d =
     (if fst t \<in> names then (if snd (snd t) then fst (snd t) else dflt) else d)"

text \<open>
  What a run of the loop does to the Config does not depend on the Config it starts from:
  it ORs a fixed mask into \<^verbatim>\<open>options\<close>, it leaves each numeric field as it is or sets it
  to a fixed value, it leaves each boolean field as it is or sets it to true, and it does not
  touch the fill and guard patterns and the signal number. \<open>setter\<close> is this property of
  a function on Configs; it is closed under composition.
\<close>

definition setter :: "('a::len Config \<Rightarrow> 'a Config) \<Rightarrow> bool" where
  "setter T \<longleftrightarrow>
     (\<exists>m. \<forall>c. options (T c) = options c OR m)
   \<and> (\<forall>x. (\<forall>c. load_value x (T c) = load_value x c) \<or> (\<exists>k. \<forall>c. load_value x (T c) = k))
   \<and> (\<forall>y. (\<forall>c. load_config y (T c) = load_config y c) \<or> (\<forall>c. load_config y (T c)))
   \<and> (\<forall>c. backtrace_signal (T c) = backtrace_signal c
          \<and> fill_alloc_value (T c) = fill_alloc_value c
          \<and> fill_free_value (T c) = fill_free_value c
          \<and> front_guard_value (T c) = front_guard_value c
          \<and> rear_guard_value (T c) = rear_guard_value c)"

section \<open>Lemmas on the parser\<close>

lemma isspace_simps:
  "\<not> isspace (CHR ''='')" "\<not> isspace (CHR 0x00)" "\<not> isspace (CHR ''-'')" "\<not> isspace (CHR ''+'')"
  by (simp_all add: isspace_def)

lemma isspace_not_isdigit: "isspace c \<Longrightarrow> \<not> isdigit c"
  by (auto simp: isspace_def isdigit_def)

lemma isdigit_simps:
  "\<not> isdigit (CHR ''-'')" "\<not> isdigit (CHR ''+'')" "\<not> isdigit (CHR 0x00)"
  by (simp_all add: isdigit_def)

lemma name_char_simps:
  "\<not> name_char (CHR ''='')" "isspace c \<Longrightarrow> \<not> name_char c" "name_char c \<Longrightarrow> \<not> isspace c"
  "name_char c \<Longrightarrow> c \<noteq> CHR ''=''" "name_char c \<Longrightarrow> c \<noteq> CHR 0x00"
  by (simp_all add: name_char_def)

lemma dropWhile_all: "\<forall>c\<in>set xs. P c \<Longrightarrow> dropWhile P (xs @ ys) = dropWhile P ys"
  by (induction xs) auto

lemma takeWhile_all: "\<forall>c\<in>set xs. P c \<Longrightarrow> takeWhile P (xs @ ys) = xs @ takeWhile P ys"
  by (induction xs) auto

lemma scan_name:
  fixes s :: string
  assumes ws: "\<forall>c\<in>set ws. isspace c" and nm: "\<forall>c\<in>set nm. name_char c"
    and ws2: "\<forall>c\<in>set ws2. isspace c"
    and cur1: "cur1 = dropWhile isspace (ws @ nm @ ws2 @ CHR ''='' # s)"
  shows "deref cur1 \<noteq> CHR 0x00
    \<and> take (length cur1 - length (dropWhile name_char cur1)) cur1 = nm
    \<and> dropWhile (\<lambda>c. isspace c \<and> c \<noteq> CHR ''='' \<and> c \<noteq> CHR 0x00) (dropWhile name_char cur1)
           = CHR ''='' # s"
proof -
  have sp2: "dropWhile isspace (ws2 @ CHR ''='' # s) = CHR ''='' # s"
    using ws2 by (simp add: dropWhile_all isspace_simps)
  have sp3: "dropWhile (\<lambda>c. isspace c \<and> c \<noteq> CHR ''='' \<and> c \<noteq> CHR 0x00) (ws2 @ CHR ''='' # s) = CHR ''='' # s"
    using ws2 by (subst dropWhile_all) (auto simp: isspace_simps)
  have nc2: "dropWhile name_char (ws2 @ CHR ''='' # s) = ws2 @ CHR ''='' # s"
    using ws2 by (cases ws2) (auto simp: name_char_simps)
  show ?thesis
  proof (cases nm)
    case Nil
    then have c1: "cur1 = CHR ''='' # s"
      using ws sp2 by (simp add: cur1 dropWhile_all)
    show ?thesis
      using Nil by (simp add: c1 deref_def name_char_simps)
  next
    case (Cons c cs)
    then have "\<not> isspace c"
      using nm by (simp add: name_char_simps)
    then have c1: "cur1 = nm @ ws2 @ CHR ''='' # s"
      using ws Cons by (simp add: cur1 dropWhile_all)
    have c2: "dropWhile name_char cur1 = ws2 @ CHR ''='' # s"
      using nm nc2 by (simp add: c1 dropWhile_all)
    have "deref cur1 \<noteq> CHR 0x00"
      using Cons nm by (simp add: c1 deref_def name_char_simps)
    moreover have "take (length cur1 - length (dropWhile name_char cur1)) cur1 = nm"
      by (simp add: c2) (simp add: c1)
    moreover have "dropWhile (\<lambda>c. isspace c \<and> c \<noteq> CHR ''='' \<and> c \<noteq> CHR 0x00) (dropWhile name_char cur1)
           = CHR ''='' # s"
      by (simp add: c2 sp3)
    ultimately show ?thesis by simp
  qed
qed

lemma Get_value_form:
  assumes ws: "\<forall>c\<in>set ws. isspace c" and nm: "\<forall>c\<in>set nm. name_char c"
    and ws2: "\<forall>c\<in>set ws2. isspace c"
  shows "Get \<lparr>cur = ws @ nm @ ws2 @ CHR ''='' # s, done = d\<rparr> (pr, v, vs) =
     (case strtol s of (read_value, endp, errno_set) \<Rightarrow>
        if errno_set
        then (False, \<lparr>cur = s, done = d\<rparr>, (nm, v, True), [BadValueErrno nm])
        else if length s = length endp
        then (False, \<lparr>cur = s, done = d\<rparr>, (nm, v, True), [BadValue nm])
        else if \<not> isspace (deref endp) \<and> deref endp \<noteq> CHR 0x00
        then (False, \<lparr>cur = s, done = d\<rparr>, (nm, v, True), [NonSpaceAfter nm endp])
        else if sint read_value < 0
        then (False, \<lparr>cur = s, done = d\<rparr>, (nm, v, True), [NegativeValue nm (sint read_value)])
        else (True, \<lparr>cur = endp, done = d\<rparr>, (nm, read_value, True), []))"
  using scan_name [OF ws nm ws2 refl, of s]
  by (simp add: Get_def Let_def deref_def split: prod.splits)

lemma strtol_form:
  assumes ws: "\<forall>c\<in>set ws. isspace c" and sg: "sg = [] \<or> sg = ''+'' \<or> sg = ''-''"
    and ds: "\<forall>c\<in>set ds. isdigit c" and rest: "rest = [] \<or> \<not> isdigit (hd rest)"
    and nodigit: "ds = [] \<and> sg = [] \<longrightarrow>
      rest = [] \<or> (\<not> isspace (hd rest) \<and> hd rest \<noteq> CHR ''+'' \<and> hd rest \<noteq> CHR ''-'')"
  shows "(strtol (ws @ sg @ ds @ rest) :: 'a::len word \<times> string \<times> bool) =
     (let acc = (if sg = ''-'' then - digits_value 0 ds else digits_value 0 ds)
      in if ds = [] then (0, ws @ sg @ ds @ rest, False)
         else if acc > 2 ^ (LENGTH('a) - 1) - 1 then (word_of_int (2 ^ (LENGTH('a) - 1) - 1), rest, True)
         else if acc < - (2 ^ (LENGTH('a) - 1)) then (word_of_int (- (2 ^ (LENGTH('a) - 1))), rest, True)
         else (word_of_int acc, rest, False))"
proof -
  have dr: "dropWhile isdigit rest = rest" "takeWhile isdigit rest = []"
    using rest by (cases rest; simp)+
  have d1: "dropWhile isdigit (ds @ rest) = rest" and t1: "takeWhile isdigit (ds @ rest) = ds"
    using ds by (simp_all add: dropWhile_all takeWhile_all dr)
  define s0 where "s0 = sg @ ds @ rest"
  have nsp: "s0 = [] \<or> \<not> isspace (hd s0)"
  proof (cases "sg = []")
    case False
    then show ?thesis using sg by (auto simp: s0_def isspace_simps)
  next
    case True
    show ?thesis
    proof (cases ds)
      case Nil
      then show ?thesis using True nodigit by (auto simp: s0_def)
    next
      case (Cons c cs)
      then show ?thesis using True ds isspace_not_isdigit by (auto simp: s0_def)
    qed
  qed
  have e0: "dropWhile isspace (ws @ s0) = s0"
    using ws nsp by (cases s0) (auto simp: dropWhile_all)
  have plain: "sg = [] \<Longrightarrow> deref s0 \<noteq> CHR ''-'' \<and> deref s0 \<noteq> CHR ''+''"
  proof (cases ds)
    case Nil
    assume "sg = []"
    then show ?thesis using Nil nodigit by (cases rest) (auto simp: s0_def deref_def)
  next
    case (Cons c cs)
    assume "sg = []"
    then show ?thesis using Cons ds isdigit_simps by (auto simp: s0_def deref_def)
  qed
  consider "sg = []" | "sg = ''+''" | "sg = ''-''"
    using sg by blast
  then have "(strtol (ws @ s0) :: 'a::len word \<times> string \<times> bool) =
     (let acc = (if sg = ''-'' then - digits_value 0 ds else digits_value 0 ds)
      in if ds = [] then (0, ws @ s0, False)
         else if acc > 2 ^ (LENGTH('a) - 1) - 1 then (word_of_int (2 ^ (LENGTH('a) - 1) - 1), rest, True)
         else if acc < - (2 ^ (LENGTH('a) - 1)) then (word_of_int (- (2 ^ (LENGTH('a) - 1))), rest, True)
         else (word_of_int acc, rest, False))"
  proof cases
    case 1
    then have "s0 = ds @ rest" by (simp add: s0_def)
    then show ?thesis
      using 1 plain unfolding strtol_def e0 by (simp add: Let_def d1 t1)
  next
    case 2
    then have "s0 = CHR ''+'' # ds @ rest" by (simp add: s0_def)
    then show ?thesis
      using 2 unfolding strtol_def e0 by (simp add: Let_def d1 t1 deref_def)
  next
    case 3
    then have "s0 = CHR ''-'' # ds @ rest" by (simp add: s0_def)
    then show ?thesis
      using 3 unfolding strtol_def e0 by (simp add: Let_def d1 t1 deref_def)
  qed
  then show ?thesis
    unfolding s0_def .
qed

lemma sint_word_of_int_range:
  "- (2 ^ (LENGTH('a) - 1)) \<le> k \<Longrightarrow> k < 2 ^ (LENGTH('a) - 1) \<Longrightarrow> sint (word_of_int k :: 'a::len word) = k"
  by (simp add: signed_of_int signed_take_bit_int_eq_self)

lemma isdigit_int: "isdigit c \<Longrightarrow> 48 \<le> (of_char c :: int) \<and> (of_char c :: int) \<le> 57"
proof -
  assume "isdigit c"
  then have "48 \<le> int (of_char c) \<and> int (of_char c) \<le> 57"
    by (simp add: isdigit_def)
  then show ?thesis
    by (simp add: of_nat_of_char)
qed

lemma digits_value_nonneg:
  "\<forall>c\<in>set ds. isdigit c \<Longrightarrow> 0 \<le> acc \<Longrightarrow> 0 \<le> digits_value acc ds"
proof (induction ds arbitrary: acc)
  case Nil
  then show ?case by simp
next
  case (Cons c cs)
  then have "0 \<le> acc * 10 + (of_char c - 48)"
    using isdigit_int [of c] by simp
  with Cons show ?case by simp
qed

lemma Get_number_form:
  fixes out :: "string \<times> 'a::len word \<times> bool"
  assumes shape: "cur p = ws @ nm @ ws2 @ CHR ''='' # ws3 @ sg @ ds @ rest"
    and ws: "\<forall>c\<in>set ws. isspace c" and nm: "\<forall>c\<in>set nm. name_char c"
    and ws2: "\<forall>c\<in>set ws2. isspace c" and ws3: "\<forall>c\<in>set ws3. isspace c"
    and sg: "sg = [] \<or> sg = ''+'' \<or> sg = ''-''"
    and ds: "\<forall>c\<in>set ds. isdigit c" and rest: "rest = [] \<or> \<not> isdigit (hd rest)"
    and nodigit: "ds = [] \<and> sg = [] \<longrightarrow>
      rest = [] \<or> (\<not> isspace (hd rest) \<and> hd rest \<noteq> CHR ''+'' \<and> hd rest \<noteq> CHR ''-'')"
    and acc: "acc = (if sg = ''-'' then - digits_value 0 ds else digits_value 0 ds)"
    and s: "s = ws3 @ sg @ ds @ rest"
  shows "Get p out =
    (if ds \<noteq> [] \<and> (acc > 2 ^ (LENGTH('a) - 1) - 1 \<or> acc < - (2 ^ (LENGTH('a) - 1)))
     then (False, p\<lparr>cur := s\<rparr>, (nm, fst (snd out), True), [BadValueErrno nm])
     else if ds = []
     then (False, p\<lparr>cur := s\<rparr>, (nm, fst (snd out), True), [BadValue nm])
     else if \<not> isspace (deref rest) \<and> deref rest \<noteq> CHR 0x00
     then (False, p\<lparr>cur := s\<rparr>, (nm, fst (snd out), True), [NonSpaceAfter nm rest])
     else if acc < 0
     then (False, p\<lparr>cur := s\<rparr>, (nm, fst (snd out), True), [NegativeValue nm acc])
     else (True, p\<lparr>cur := rest\<rparr>, (nm, word_of_int acc, True), []))"
proof -
  obtain pr v vs where out: "out = (pr, v, vs)"
    by (cases out) auto
  have p: "p = \<lparr>cur = ws @ nm @ ws2 @ CHR ''='' # s, done = done p\<rparr>"
    using shape s by simp
  have g: "Get p (pr, v, vs) =
     (case strtol s of (read_value, endp, errno_set) \<Rightarrow>
        if errno_set
        then (False, \<lparr>cur = s, done = done p\<rparr>, (nm, v, True), [BadValueErrno nm])
        else if length s = length endp
        then (False, \<lparr>cur = s, done = done p\<rparr>, (nm, v, True), [BadValue nm])
        else if \<not> isspace (deref endp) \<and> deref endp \<noteq> CHR 0x00
        then (False, \<lparr>cur = s, done = done p\<rparr>, (nm, v, True), [NonSpaceAfter nm endp])
        else if sint read_value < 0
        then (False, \<lparr>cur = s, done = done p\<rparr>, (nm, v, True), [NegativeValue nm (sint read_value)])
        else (True, \<lparr>cur = endp, done = done p\<rparr>, (nm, read_value, True), []))"
    by (subst p) (rule Get_value_form [OF ws nm ws2])
  have st: "(strtol s :: 'a word \<times> string \<times> bool) =
     (if ds = [] then (0, s, False)
         else if acc > 2 ^ (LENGTH('a) - 1) - 1 then (word_of_int (2 ^ (LENGTH('a) - 1) - 1), rest, True)
         else if acc < - (2 ^ (LENGTH('a) - 1)) then (word_of_int (- (2 ^ (LENGTH('a) - 1))), rest, True)
         else (word_of_int acc, rest, False))"
    unfolding s acc using strtol_form [OF ws3 sg ds rest nodigit, where 'a = 'a]
    by (simp add: Let_def)
  have upd: "\<And>x. p\<lparr>cur := x\<rparr> = \<lparr>cur = x, done = done p\<rparr>"
    by simp
  have len: "ds \<noteq> [] \<Longrightarrow> length s \<noteq> length rest"
    by (simp add: s)
  show ?thesis
  proof (cases "ds = []")
    case True
    then show ?thesis
      by (simp add: g st upd out)
  next
    case False
    show ?thesis
    proof (cases "acc > 2 ^ (LENGTH('a) - 1) - 1 \<or> acc < - (2 ^ (LENGTH('a) - 1))")
      case True
      then show ?thesis
        using False by (auto simp: g st upd out)
    next
      case inr: False
      then have "sint (word_of_int acc :: 'a word) = acc"
        by (intro sint_word_of_int_range) auto
      then show ?thesis
        using False inr len by (simp add: g st upd out)
    qed
  qed
qed

section \<open>Lemmas on the token loop\<close>

lemma Get_True_done: "Get p out = (True, p', out', msgs) \<Longrightarrow> done p' = done p"
  by (cases out) (auto simp: Get_def Let_def split: if_splits prod.splits)

lemma Get_strlen_0:
  "strlen s = 0 \<Longrightarrow> Get \<lparr>cur = s, done = d\<rparr> out = (False, \<lparr>cur = s, done = True\<rparr>, out, [])"
  by (cases s; cases out) (auto simp: strlen_def Get_def Let_def deref_def isspace_def split: if_splits)

lemma while_loop_Get_False:
  "Get p out = (False, p', out', msgs) \<Longrightarrow> while_loop fs p out found this = (True, p', this, msgs)"
  by (subst while_loop.simps) simp

lemma while_loop_feature_False:
  "Get p out = (True, p', (property, val, vs), msgs) \<Longrightarrow>
   feature_loop property fs val vs found this = (False, found', this', msgs') \<Longrightarrow>
   while_loop fs p out found this = (False, p', this', msgs @ msgs')"
  by (subst while_loop.simps) simp

lemma while_loop_unknown:
  "Get p out = (True, p', (property, val, vs), msgs) \<Longrightarrow>
   feature_loop property fs val vs found this = (True, False, this', msgs') \<Longrightarrow>
   while_loop fs p out found this = (False, p', this', msgs @ msgs' @ [UnknownOption property])"
  by (subst while_loop.simps) simp

lemma while_loop_next:
  "Get p out = (True, p', (property, val, vs), msgs) \<Longrightarrow>
   feature_loop property fs val vs found this = (True, True, this', msgs') \<Longrightarrow>
   while_loop fs p out found this =
     (case while_loop fs p' (property, val, vs) True this' of
        (valid', p'', this'', msgs'') \<Rightarrow> (valid', p'', this'', msgs @ msgs' @ msgs''))"
  by (subst while_loop.simps) simp

lemma loop_at_done:
  "loop_at n fs p out found this = Some (p', out', found', this') \<Longrightarrow> done p' = done p"
proof (induction n arbitrary: p out found this)
  case 0
  then show ?case by simp
next
  case (Suc n)
  then show ?case
    by (auto split: prod.splits bool.splits if_splits dest!: Get_True_done)
qed

lemma loop_at_while_loop:
  "loop_at n fs p out found this = Some (p', out', found', this') \<Longrightarrow>
   \<exists>pre. while_loop fs p out found this =
     (case while_loop fs p' out' found' this' of (v, q, c, m) \<Rightarrow> (v, q, c, pre @ m))"
proof (induction n arbitrary: p out found this)
  case 0
  then have "while_loop fs p out found this =
     (case while_loop fs p' out' found' this' of (v, q, c, m) \<Rightarrow> (v, q, c, [] @ m))"
    by (simp split: prod.splits)
  then show ?case by blast
next
  case (Suc n)
  obtain ok p1 property val vs msgs where g: "Get p out = (ok, p1, (property, val, vs), msgs)"
    by (cases "Get p out") auto
  with Suc.prems have ok: "ok" by (cases ok) auto
  obtain valid f1 this1 msgs1 where fl:
    "feature_loop property fs val vs found this = (valid, f1, this1, msgs1)"
    by (cases "feature_loop property fs val vs found this") auto
  from Suc.prems g ok fl have vf: "valid" "f1"
    and nxt: "loop_at n fs p1 (property, val, vs) f1 this1 = Some (p', out', found', this')"
    by (auto split: if_splits)
  obtain v q c m where w: "while_loop fs p' out' found' this' = (v, q, c, m)"
    by (cases "while_loop fs p' out' found' this'") auto
  from Suc.IH [OF nxt] w obtain pre where pre:
    "while_loop fs p1 (property, val, vs) f1 this1 = (v, q, c, pre @ m)"
    by auto
  have "while_loop fs p out found this = (v, q, c, (msgs @ msgs1 @ pre) @ m)"
    using while_loop_next [of p out p1 property val vs msgs fs found this this1 msgs1] g ok fl vf pre
    by simp
  then show ?case
    using w by auto
qed

lemma loop_at_strlen:
  assumes "loop_at n fs \<lparr>cur = s, done = False\<rparr> out found this = Some (p, out', found', this')"
    and "fst (Get p out') \<or> \<not> done (fst (snd (Get p out')))"
  shows "strlen s \<noteq> 0"
proof
  assume z: "strlen s = 0"
  show False
  proof (cases n)
    case 0
    with assms z show False
      using Get_strlen_0 [OF z, of False out] by auto
  next
    case (Suc m)
    with assms(1) show False
      using Get_strlen_0 [OF z, of False out] by simp
  qed
qed

lemma build_fails_at:
  assumes at: "loop_at n (features K) \<lparr>cur = s, done = False\<rparr> ([], 0, False) False (initial_values K this)
      = Some (p, out, found, this')"
    and w: "while_loop (features K) p out found this' = (v, q, c, m)"
    and bad: "\<not> v \<or> \<not> done q"
    and len: "strlen s \<noteq> 0"
  shows "\<exists>pre. SetFromProperties K s this = (False, c, pre @ m @ [Usage])"
proof -
  from loop_at_while_loop [OF at] w obtain pre where
    "while_loop (features K) \<lparr>cur = s, done = False\<rparr> ([], 0, False) False (initial_values K this)
      = (v, q, c, pre @ m)"
    by auto
  then have "SetFromProperties K s this = (False, c, pre @ m @ [Usage])"
    using bad len by (auto simp: SetFromProperties_def)
  then show ?thesis by blast
qed

lemma loop_at_Suc_end:
  assumes at: "loop_at n fs p0 out0 found0 this0 = Some (p, out, found, this')"
    and tok: "Get p out = (True, p', (property, val, vs), msgs)"
    and fl: "feature_loop property fs val vs found this' = (True, True, this'', msgs')"
  shows "loop_at (Suc n) fs p0 out0 found0 this0 = Some (p', (property, val, vs), True, this'')"
  using at
proof (induction n arbitrary: p0 out0 found0 this0)
  case 0
  then show ?case
    using tok fl by simp
next
  case (Suc n)
  obtain ok p1 property1 val1 vs1 msgs1 where g: "Get p0 out0 = (ok, p1, (property1, val1, vs1), msgs1)"
    by (cases "Get p0 out0") auto
  with Suc.prems have ok: "ok" by (cases ok) auto
  obtain valid f1 this1 m1 where fl1:
    "feature_loop property1 fs val1 vs1 found0 this0 = (valid, f1, this1, m1)"
    by (cases "feature_loop property1 fs val1 vs1 found0 this0") auto
  from Suc.prems g ok fl1 have vf: "valid" "f1"
    and nxt: "loop_at n fs p1 (property1, val1, vs1) f1 this1 = Some (p, out, found, this')"
    by (auto split: if_splits)
  have "loop_at (Suc n) fs p1 (property1, val1, vs1) f1 this1 = Some (p', (property, val, vs), True, this'')"
    using Suc.IH [OF nxt] .
  then show ?case
    using g ok fl1 vf by (subst loop_at.simps) simp
qed

lemma SetFeature_ignores_value:
  "SetFeature nm f val False this = SetFeature nm f val' False this"
  by (cases "value f") (simp_all add: SetFeature_def Let_def)

lemma load_value_after_config:
  "load_value sl (case cf of Some b \<Rightarrow> store_config b True c | None \<Rightarrow> c) = load_value sl c"
proof (cases cf)
  case None
  then show ?thesis by simp
next
  case (Some b)
  then show ?thesis by (cases b; cases sl) simp_all
qed

lemma load_value_store_same: "load_value sl (store_value sl v c) = v"
  by (cases sl) simp_all

lemma feature_loop_applied:
  assumes nz: "nonzero_bits K" and f: "f \<in> set (applied property (features K))"
    and sl: "value f = Some sl"
  shows "(vs \<and> (val < min_value f \<or> max_value f < val) \<longrightarrow>
      (\<exists>c'. feature_loop property (features K) val vs found c
          = (False, found, c', [range_msg property f val])))
    \<and> (\<not> (vs \<and> (val < min_value f \<or> max_value f < val)) \<longrightarrow>
      (\<exists>c'. feature_loop property (features K) val vs found c = (True, True, c', [])
          \<and> load_value sl c' = (if vs then val else default_value f)))"
proof -
  consider "property = ''guard''"
    | "property = ''front_guard''"
    | "property = ''rear_guard''"
    | "property = ''backtrace''"
    | "property = ''backtrace_enable_on_signal''"
    | "property = ''fill''"
    | "property = ''fill_on_alloc''"
    | "property = ''fill_on_free''"
    | "property = ''expand_alloc''"
    | "property = ''free_track''"
    | "property = ''free_track_backtrace_num_frames''"
    | "property = ''leak_track''"
    | "property \<notin> {''guard'', ''front_guard'', ''rear_guard'', ''backtrace'', ''backtrace_enable_on_signal'', ''fill'', ''fill_on_alloc'', ''fill_on_free'', ''expand_alloc'', ''free_track'', ''free_track_backtrace_num_frames'', ''leak_track''}"
    by auto
  then show ?thesis
  proof cases
    case 1
    with f sl nz show ?thesis
      by (auto simp: features_def mkFeature_def nonzero_bits_def SetFeature_def range_msg_def)
  next
    case 2
    with f sl nz show ?thesis
      by (auto simp: features_def mkFeature_def nonzero_bits_def SetFeature_def range_msg_def)
  next
    case 3
    with f sl nz show ?thesis
      by (auto simp: features_def mkFeature_def nonzero_bits_def SetFeature_def range_msg_def)
  next
    case 4
    with f sl nz show ?thesis
      by (auto simp: features_def mkFeature_def nonzero_bits_def SetFeature_def range_msg_def)
  next
    case 5
    with f sl nz show ?thesis
      by (auto simp: features_def mkFeature_def nonzero_bits_def SetFeature_def range_msg_def)
  next
    case 6
    with f sl nz show ?thesis
      by (auto simp: features_def mkFeature_def nonzero_bits_def SetFeature_def range_msg_def)
  next
    case 7
    with f sl nz show ?thesis
      by (auto simp: features_def mkFeature_def nonzero_bits_def SetFeature_def range_msg_def)
  next
    case 8
    with f sl nz show ?thesis
      by (auto simp: features_def mkFeature_def nonzero_bits_def SetFeature_def range_msg_def)
  next
    case 9
    with f sl nz show ?thesis
      by (auto simp: features_def mkFeature_def nonzero_bits_def SetFeature_def range_msg_def)
  next
    case 10
    with f sl nz show ?thesis
      by (auto simp: features_def mkFeature_def nonzero_bits_def SetFeature_def range_msg_def)
  next
    case 11
    with f sl nz show ?thesis
      by (auto simp: features_def mkFeature_def nonzero_bits_def SetFeature_def range_msg_def)
  next
    case 12
    with f sl nz show ?thesis
      by (auto simp: features_def mkFeature_def nonzero_bits_def SetFeature_def range_msg_def)
  next
    case 13
    with f show ?thesis
      by (simp add: features_def mkFeature_def)
  qed
qed

lemma valueless_entry:
  assumes f: "f \<in> set (features K)" and nov: "value f = None"
    and nomark: "\<not> (option f = 0 \<and> combo_option f)"
  shows "f = features K ! 11"
  using assms by (auto simp: features_def mkFeature_def)

lemma feature_loop_leak_track:
  "feature_loop ''leak_track'' (features K) val vs found c =
     (if vs then (False, found, c, [TakesNoValue ''leak_track''])
      else (True, True, c\<lparr>options := options c OR (LEAK_TRACK K OR TRACK_ALLOCS K)\<rparr>, []))"
  by (simp add: features_def mkFeature_def SetFeature_def)

section \<open>Evaluation on concrete property strings\<close>

lemmas eval_defs = SetFromProperties_def initial_values_def adjust_def strlen_def features_def
  mkFeature_def Get_def Let_def deref_def isspace_def name_char_def strtol_def isdigit_def
  SetFeature_def while_loop.simps BIONIC_ALIGN_def SIZE_MAX_def

lemma deref_hd: "(\<not> isspace (deref r) \<and> deref r \<noteq> CHR 0x00) = (r \<noteq> [] \<and> \<not> isspace (hd r) \<and> hd r \<noteq> CHR 0x00)"
  by (cases r) (simp_all add: deref_def isspace_def)

section \<open>Unknown options\<close>

text \<open>
  C1. Every property string with a token whose name is in no table entry should make the
  build fail with the "unknown option" message. The flag \<^verbatim>\<open>found\<close> is declared before
  the \<^verbatim>\<open>while\<close> loop and never reset, so once one token has matched, an unknown name
  behind it is skipped silently: on \<^verbatim>\<open>"backtrace unknown_option=5"\<close> the build succeeds
  and logs nothing, whatever the constants and the Config it starts from. The same
  token alone, \<^verbatim>\<open>"unknown_option=5"\<close>, fails with the message, as does the unknown token in
  front, \<^verbatim>\<open>"unknown_option=5 backtrace"\<close>.
\<close>

theorem unknown_option_after_known_is_accepted:
  "fst (SetFromProperties (K :: 64 constants) ''backtrace unknown_option=5'' this) = True
   \<and> snd (snd (SetFromProperties K ''backtrace unknown_option=5'' this)) = []
   \<and> fst (SetFromProperties K ''unknown_option=5'' this) = False
   \<and> snd (snd (SetFromProperties K ''unknown_option=5'' this))
       = [UnknownOption ''unknown_option'', Usage]
   \<and> fst (SetFromProperties K ''unknown_option=5 backtrace'' this) = False
   \<and> snd (snd (SetFromProperties K ''unknown_option=5 backtrace'' this))
       = [UnknownOption ''unknown_option'', Usage]"
  by (simp add: SetFromProperties_def initial_values_def adjust_def strlen_def features_def
      mkFeature_def Get_def Let_def deref_def isspace_def name_char_def strtol_def isdigit_def
      SetFeature_def while_loop.simps)

section \<open>Signs in front of a value\<close>

text \<open>
  C2, as the code has it. A leading sign is by itself no reason for rejection:
  \<^verbatim>\<open>strtol\<close> reads it. Let the text behind \<^verbatim>\<open>=\<close> be optional whitespace, a sign
  \<^verbatim>\<open>+\<close> or \<^verbatim>\<open>-\<close>, the longest run \<open>ds\<close> of digits behind the sign (it may be
  empty) and the rest. \<^verbatim>\<open>Get\<close> rejects the token exactly when no digit follows the sign,
  or the sign is \<^verbatim>\<open>+\<close> and the number exceeds \<^verbatim>\<open>LONG_MAX\<close>, or the character behind
  the digits is neither whitespace nor the end of the string, or the sign is \<^verbatim>\<open>-\<close> and
  the digits denote a non-zero number (the negative-value message, or the \<^verbatim>\<open>errno\<close> message
  below \<^verbatim>\<open>LONG_MIN\<close>). It logs a message exactly when it rejects. Otherwise the token is
  accepted: with \<^verbatim>\<open>+\<close> as the base-10 number of the digits, with \<^verbatim>\<open>-\<close> (the digits
  are all zero) as 0. The first conjunct is the full result of \<^verbatim>\<open>Get\<close> in each case. So
  \<^verbatim>\<open>+5\<close> and \<^verbatim>\<open>-0\<close> are accepted, and \<^verbatim>\<open>-5\<close>, \<^verbatim>\<open>+5x\<close>, \<^verbatim>\<open>-0x\<close>,
  \<^verbatim>\<open>+\<close> and \<^verbatim>\<open>-\<close> are rejected.
\<close>

theorem signed_value_token:
  fixes out :: "string \<times> 'a::len word \<times> bool"
  assumes shape: "cur p = ws @ nm @ ws2 @ CHR ''='' # ws3 @ sg @ ds @ rest"
    and ws: "\<forall>c\<in>set ws. isspace c" and nm: "\<forall>c\<in>set nm. name_char c"
    and ws2: "\<forall>c\<in>set ws2. isspace c" and ws3: "\<forall>c\<in>set ws3. isspace c"
    and sg: "sg = ''+'' \<or> sg = ''-''"
    and ds: "\<forall>c\<in>set ds. isdigit c"
    and rest: "rest = [] \<or> \<not> isdigit (hd rest)"
  shows "Get p out =
    (if ds = []
     then (False, p\<lparr>cur := ws3 @ sg @ ds @ rest\<rparr>, (nm, fst (snd out), True), [BadValue nm])
     else if (sg = ''+'' \<and> 2 ^ (LENGTH('a) - 1) - 1 < digits_value 0 ds)
           \<or> (sg = ''-'' \<and> - digits_value 0 ds < - (2 ^ (LENGTH('a) - 1)))
     then (False, p\<lparr>cur := ws3 @ sg @ ds @ rest\<rparr>, (nm, fst (snd out), True), [BadValueErrno nm])
     else if \<not> isspace (deref rest) \<and> deref rest \<noteq> CHR 0x00
     then (False, p\<lparr>cur := ws3 @ sg @ ds @ rest\<rparr>, (nm, fst (snd out), True),
           [NonSpaceAfter nm rest])
     else if sg = ''-'' \<and> digits_value 0 ds \<noteq> 0
     then (False, p\<lparr>cur := ws3 @ sg @ ds @ rest\<rparr>, (nm, fst (snd out), True),
           [NegativeValue nm (- digits_value 0 ds)])
     else (True, p\<lparr>cur := rest\<rparr>,
           (nm, if sg = ''-'' then 0 else word_of_int (digits_value 0 ds), True), []))
   \<and> (fst (Get p out) = False \<longleftrightarrow>
        ds = []
        \<or> (sg = ''+'' \<and> 2 ^ (LENGTH('a) - 1) - 1 < digits_value 0 ds)
        \<or> (\<not> isspace (deref rest) \<and> deref rest \<noteq> CHR 0x00)
        \<or> (sg = ''-'' \<and> digits_value 0 ds \<noteq> 0))
   \<and> (fst (Get p out) = False \<longleftrightarrow> snd (snd (snd (Get p out))) \<noteq> [])"
proof -
  have nd: "ds = [] \<and> sg = [] \<longrightarrow>
      rest = [] \<or> (\<not> isspace (hd rest) \<and> hd rest \<noteq> CHR ''+'' \<and> hd rest \<noteq> CHR ''-'')"
    using sg by auto
  have sg': "sg = [] \<or> sg = ''+'' \<or> sg = ''-''"
    using sg by blast
  have nn: "0 \<le> digits_value 0 ds"
    using ds by (simp add: digits_value_nonneg)
  have one: "(1::int) \<le> 2 ^ (LENGTH('a) - 1)"
    by simp
  from one nn have hi: "\<not> 2 ^ (LENGTH('a) - 1) - 1 < - digits_value 0 ds"
    by linarith
  from one nn have lo: "\<not> digits_value 0 ds < - (2 ^ (LENGTH('a) - 1))"
    by linarith
  note g = Get_number_form [OF shape ws nm ws2 ws3 sg' ds rest nd refl refl, of out]
  have eq: "Get p out =
    (if ds = []
     then (False, p\<lparr>cur := ws3 @ sg @ ds @ rest\<rparr>, (nm, fst (snd out), True), [BadValue nm])
     else if (sg = ''+'' \<and> 2 ^ (LENGTH('a) - 1) - 1 < digits_value 0 ds)
           \<or> (sg = ''-'' \<and> - digits_value 0 ds < - (2 ^ (LENGTH('a) - 1)))
     then (False, p\<lparr>cur := ws3 @ sg @ ds @ rest\<rparr>, (nm, fst (snd out), True), [BadValueErrno nm])
     else if \<not> isspace (deref rest) \<and> deref rest \<noteq> CHR 0x00
     then (False, p\<lparr>cur := ws3 @ sg @ ds @ rest\<rparr>, (nm, fst (snd out), True),
           [NonSpaceAfter nm rest])
     else if sg = ''-'' \<and> digits_value 0 ds \<noteq> 0
     then (False, p\<lparr>cur := ws3 @ sg @ ds @ rest\<rparr>, (nm, fst (snd out), True),
           [NegativeValue nm (- digits_value 0 ds)])
     else (True, p\<lparr>cur := rest\<rparr>,
           (nm, if sg = ''-'' then 0 else word_of_int (digits_value 0 ds), True), []))"
  proof (cases "sg = ''-''")
    case True
    then show ?thesis
      unfolding g using nn hi by (auto simp: not_less)
  next
    case False
    then have "sg = ''+''" using sg by blast
    then show ?thesis
      unfolding g using nn lo by (auto simp: not_less)
  qed
  have neg: "sg = ''-'' \<and> - digits_value 0 ds < - (2 ^ (LENGTH('a) - 1)) \<longrightarrow> digits_value 0 ds \<noteq> 0"
    using one by auto
  have iff: "fst (Get p out) = False \<longleftrightarrow>
      ds = []
      \<or> (sg = ''+'' \<and> 2 ^ (LENGTH('a) - 1) - 1 < digits_value 0 ds)
      \<or> (\<not> isspace (deref rest) \<and> deref rest \<noteq> CHR 0x00)
      \<or> (sg = ''-'' \<and> digits_value 0 ds \<noteq> 0)"
    unfolding eq using neg by auto
  have lg: "fst (Get p out) = False \<longleftrightarrow> snd (snd (snd (Get p out))) \<noteq> []"
    unfolding eq by simp
  from eq iff lg show ?thesis
    by (intro conjI)
qed

theorem signed_value_token_witness:
  "fst (Get \<lparr>cur = ''backtrace=-5'', done = False\<rparr> ([], 0 :: 64 word, False)) = False
   \<and> Get \<lparr>cur = ''backtrace=+5'', done = False\<rparr> ([], 0 :: 64 word, False)
      = (True, \<lparr>cur = [], done = False\<rparr>, (''backtrace'', 5, True), [])
   \<and> Get \<lparr>cur = ''backtrace=-0'', done = False\<rparr> ([], 0 :: 64 word, False)
      = (True, \<lparr>cur = [], done = False\<rparr>, (''backtrace'', 0, True), [])
   \<and> fst (Get \<lparr>cur = ''backtrace=+5x'', done = False\<rparr> ([], 0 :: 64 word, False)) = False
   \<and> fst (Get \<lparr>cur = ''backtrace=-0x'', done = False\<rparr> ([], 0 :: 64 word, False)) = False
   \<and> fst (Get \<lparr>cur = ''backtrace=+'', done = False\<rparr> ([], 0 :: 64 word, False)) = False
   \<and> fst (Get \<lparr>cur = ''backtrace=-'', done = False\<rparr> ([], 0 :: 64 word, False)) = False"
proof -
  have nm: "\<forall>c\<in>set ''backtrace''. name_char c"
    by (simp add: name_char_def isspace_def)
  have d5: "\<forall>c\<in>set ''5''. isdigit c" and d0: "\<forall>c\<in>set ''0''. isdigit c"
    by (simp_all add: isdigit_def)
  have x: "''x'' = [] \<or> \<not> isdigit (hd ''x'')"
    by (simp add: isdigit_def)
  have m5: "cur \<lparr>cur = ''backtrace=-5'', done = False\<rparr> = [] @ ''backtrace'' @ [] @ CHR ''='' # [] @ ''-'' @ ''5'' @ []"
    and p5: "cur \<lparr>cur = ''backtrace=+5'', done = False\<rparr> = [] @ ''backtrace'' @ [] @ CHR ''='' # [] @ ''+'' @ ''5'' @ []"
    and m0: "cur \<lparr>cur = ''backtrace=-0'', done = False\<rparr> = [] @ ''backtrace'' @ [] @ CHR ''='' # [] @ ''-'' @ ''0'' @ []"
    and p5x: "cur \<lparr>cur = ''backtrace=+5x'', done = False\<rparr> = [] @ ''backtrace'' @ [] @ CHR ''='' # [] @ ''+'' @ ''5'' @ ''x''"
    and m0x: "cur \<lparr>cur = ''backtrace=-0x'', done = False\<rparr> = [] @ ''backtrace'' @ [] @ CHR ''='' # [] @ ''-'' @ ''0'' @ ''x''"
    and pl: "cur \<lparr>cur = ''backtrace=+'', done = False\<rparr> = [] @ ''backtrace'' @ [] @ CHR ''='' # [] @ ''+'' @ [] @ []"
    and mi: "cur \<lparr>cur = ''backtrace=-'', done = False\<rparr> = [] @ ''backtrace'' @ [] @ CHR ''='' # [] @ ''-'' @ [] @ []"
    by simp_all
  from signed_value_token [OF m5 _ nm _ _ _ d5, of "([], 0 :: 64 word, False)"]
    signed_value_token [OF p5 _ nm _ _ _ d5, of "([], 0 :: 64 word, False)"]
    signed_value_token [OF m0 _ nm _ _ _ d0, of "([], 0 :: 64 word, False)"]
    signed_value_token [OF p5x _ nm _ _ _ d5 x, of "([], 0 :: 64 word, False)"]
    signed_value_token [OF m0x _ nm _ _ _ d0 x, of "([], 0 :: 64 word, False)"]
    signed_value_token [OF pl _ nm, of "([], 0 :: 64 word, False)"]
    signed_value_token [OF mi _ nm, of "([], 0 :: 64 word, False)"]
  show ?thesis
    by (simp add: deref_def isspace_def)
qed

text \<open>
  C2, as the spec has it, says that a leading sign makes the parser reject the token. It does
  not: \<^verbatim>\<open>strtol\<close> reads the sign, and only a negative result is rejected. On
  \<^verbatim>\<open>"backtrace=+5"\<close> \<^verbatim>\<open>Get\<close> returns the value 5 and the build succeeds with 5 frames;
  on \<^verbatim>\<open>"free_track_backtrace_num_frames=-0"\<close> it returns 0 and the build succeeds.
\<close>

theorem leading_sign_accepted:
  "Get \<lparr>cur = ''backtrace=+5'', done = False\<rparr> ([], 0 :: 64 word, False)
     = (True, \<lparr>cur = [], done = False\<rparr>, (''backtrace'', 5, True), [])
   \<and> fst (SetFromProperties lp64 ''backtrace=+5'' zero_Config) = True
   \<and> backtrace_frames (fst (snd (SetFromProperties lp64 ''backtrace=+5'' zero_Config))) = 5
   \<and> Get \<lparr>cur = ''free_track_backtrace_num_frames=-0'', done = False\<rparr> ([], 0 :: 64 word, False)
     = (True, \<lparr>cur = [], done = False\<rparr>, (''free_track_backtrace_num_frames'', 0, True), [])
   \<and> fst (SetFromProperties lp64 ''free_track_backtrace_num_frames=-0'' zero_Config) = True"
  by (simp add: eval_defs lp64_def zero_Config_def)

section \<open>The guard and free_track options\<close>

lemma and_not_mask_eq: "w AND NOT (mask n) = push_bit n (drop_bit n w)" for w :: "'a::len word"
  by (rule bit_eqI) (auto simp: bit_simps)

lemma unat_and_not_mask: "unat (w AND NOT (mask n)) = (unat w div 2 ^ n) * 2 ^ n" for w :: "'a::len word"
proof -
  have "(unat w div 2 ^ n) * 2 ^ n \<le> unat w"
    by simp
  also have "\<dots> < 2 ^ LENGTH('a)"
    by simp
  finally have "take_bit LENGTH('a) ((unat w div 2 ^ n) * 2 ^ n) = (unat w div 2 ^ n) * 2 ^ n"
    by (simp add: take_bit_nat_eq_self)
  then show ?thesis
    by (simp only: and_not_mask_eq unsigned_push_bit_eq unat_drop_bit_eq)
       (simp add: drop_bit_eq_div push_bit_eq_mult)
qed

lemma BIONIC_ALIGN_round_up:
  fixes x :: "'a::len word"
  assumes "unat x + 2 ^ k - 1 < 2 ^ LENGTH('a)" and kl: "k < LENGTH('a)"
  shows "unat (BIONIC_ALIGN x (2 ^ k)) = ((unat x + 2 ^ k - 1) div 2 ^ k) * 2 ^ k"
proof -
  have "unat (mask k :: 'a word) = mask k"
    using kl by (intro bit_eqI) (auto simp: bit_simps)
  then have m: "unat (mask k :: 'a word) = 2 ^ k - 1"
    by (simp add: mask_eq_exp_minus_1)
  have "unat x + unat (mask k :: 'a word) < 2 ^ LENGTH('a)"
    using assms m by simp
  then have "unat (x + mask k) = unat x + 2 ^ k - 1"
    using m by (simp add: unat_add_lem [THEN iffD1])
  moreover have "x + 2 ^ k - 1 = x + (2 ^ k - 1)"
    by simp
  then have "BIONIC_ALIGN x (2 ^ k) = (x + mask k) AND NOT (mask k)"
    by (simp only: BIONIC_ALIGN_def mask_eq_decr_exp)
  ultimately show ?thesis
    by (simp add: unat_and_not_mask)
qed

lemma BIONIC_ALIGN_idem: "BIONIC_ALIGN (BIONIC_ALIGN x a) a = BIONIC_ALIGN x a"
proof -
  define m where "m = a - 1"
  define y where "y = (x + a - 1) AND NOT m"
  have "y AND m = 0"
    by (rule bit_eqI) (auto simp: y_def bit_simps)
  then have "y + m = y OR m"
    by (rule disjunctive_add_eq_or)
  moreover have "(y OR m) AND NOT m = y"
    by (rule bit_eqI) (auto simp: y_def bit_simps)
  moreover have "y + a - 1 = y + m"
    by (simp add: m_def)
  ultimately have "(y + a - 1) AND NOT m = y"
    by simp
  then show ?thesis
    by (simp add: BIONIC_ALIGN_def y_def m_def)
qed

lemma or_and_absorb: "((a OR b) AND b) = b" "((a OR (c OR b)) AND b) = b" "(((a OR b) OR c) AND b) = b"
  for a b c :: "'a::len word"
  by (rule bit_eqI; auto simp: bit_simps)+

lemma Get_at_end:
  "Get \<lparr>cur = [], done = d\<rparr> out = (False, \<lparr>cur = [], done = True\<rparr>, out, [])"
  by (cases out) (simp add: Get_def deref_def)

lemma unat_16384: "16 \<le> LENGTH('a) \<Longrightarrow> unat (16384 :: 'a::len word) = 16384"
proof -
  assume "16 \<le> LENGTH('a)"
  then have "(2::nat) ^ 16 \<le> 2 ^ LENGTH('a)"
    by (intro power_increasing) simp_all
  then have "(16384::nat) < 2 ^ LENGTH('a)"
    by simp
  then show ?thesis
    by (simp add: take_bit_nat_eq_self)
qed

lemma unat_word_of_int_small:
  assumes "16 \<le> LENGTH('a)" and "v \<le> 16384"
  shows "unat (word_of_int (int v) :: 'a::len word) = v"
proof -
  from assms(1) have "(2::nat) ^ 16 \<le> 2 ^ LENGTH('a)"
    by (intro power_increasing) simp_all
  with assms(2) have "v < 2 ^ LENGTH('a)"
    by simp
  then show ?thesis
    by (simp add: unat_of_nat)
qed

lemma feature_loop_guard:
  fixes val :: "'a::len word"
  assumes "\<not> val < 1" and "\<not> 16384 < val"
  shows "feature_loop ''guard'' (features K) val True found c =
    (True, True,
     c\<lparr>front_guard_bytes := val, options := options c OR FRONT_GUARD K,
       rear_guard_bytes := val, options := (options c OR FRONT_GUARD K) OR REAR_GUARD K\<rparr>, [])"
  using assms by (simp add: features_def mkFeature_def SetFeature_def)

text \<open>
  C3. On \<^verbatim>\<open>"guard=v"\<close>, for every run of digits that denotes a number \<open>v\<close> from 1 to
  16384, the build succeeds without a message, both the \<^verbatim>\<open>FRONT_GUARD\<close> and the
  \<^verbatim>\<open>REAR_GUARD\<close> bits are set in \<^verbatim>\<open>options\<close>, \<^verbatim>\<open>rear_guard_bytes\<close> is \<open>v\<close> and
  \<^verbatim>\<open>front_guard_bytes\<close> is \<open>v\<close> rounded up to the next multiple of
  \<^verbatim>\<open>MINIMUM_ALIGNMENT_BYTES\<close>: the run of \<^verbatim>\<open>combo_option\<close> entries behind the marker
  \<^verbatim>\<open>guard\<close> is \<^verbatim>\<open>front_guard\<close> and \<^verbatim>\<open>rear_guard\<close>, both receive the value, and only
  the front guard is aligned afterwards. The alignment is a power of two \<open>2 ^ k\<close> below a quarter
  of the range of \<^verbatim>\<open>size_t\<close>, \<^verbatim>\<open>size_t\<close> has at least 16 bits and the
  \<^verbatim>\<open>FRONT_GUARD\<close> bit is not zero; the Config the build starts from is arbitrary.
\<close>

theorem guard_sets_both_guards:
  fixes K :: "'a::len constants"
  assumes len: "16 \<le> LENGTH('a)" and fg: "FRONT_GUARD K \<noteq> 0"
    and al: "MINIMUM_ALIGNMENT_BYTES K = 2 ^ k" and k: "k + 2 \<le> LENGTH('a)"
    and ds: "ds \<noteq> []" "\<forall>c\<in>set ds. isdigit c"
    and v: "digits_value 0 ds = int v" "1 \<le> v" "v \<le> 16384"
  shows "fst (SetFromProperties K (''guard='' @ ds) this) = True
    \<and> snd (snd (SetFromProperties K (''guard='' @ ds) this)) = []
    \<and> options (fst (snd (SetFromProperties K (''guard='' @ ds) this))) AND FRONT_GUARD K = FRONT_GUARD K
    \<and> options (fst (snd (SetFromProperties K (''guard='' @ ds) this))) AND REAR_GUARD K = REAR_GUARD K
    \<and> unat (front_guard_bytes (fst (snd (SetFromProperties K (''guard='' @ ds) this))))
        = ((v + 2 ^ k - 1) div 2 ^ k) * 2 ^ k
    \<and> unat (rear_guard_bytes (fst (snd (SetFromProperties K (''guard='' @ ds) this)))) = v
    \<and> takeWhile combo_option (tl (features K)) = [features K ! 1, features K ! 2]
    \<and> name (features K ! 1) = ''front_guard'' \<and> name (features K ! 2) = ''rear_guard''"
proof -
  define val :: "'a word" where "val = word_of_int (int v)"
  define p0 where "p0 = \<lparr>cur = ''guard='' @ ds, done = False\<rparr>"
  define c0 where "c0 = initial_values K this"
  define c1 where "c1 = c0\<lparr>front_guard_bytes := val, options := options c0 OR FRONT_GUARD K,
       rear_guard_bytes := val, options := (options c0 OR FRONT_GUARD K) OR REAR_GUARD K\<rparr>"
  have uv: "unat val = v"
    unfolding val_def using len v(3) by (rule unat_word_of_int_small)
  have "(2::int) ^ 15 \<le> 2 ^ (LENGTH('a) - 1)"
    using len by (intro power_increasing) simp_all
  then have p14: "(32768::int) \<le> 2 ^ (LENGTH('a) - 1)"
    by simp
  have "int v \<le> 16384"
    using v(3) by simp
  with p14 have fits: "int v \<le> 2 ^ (LENGTH('a) - 1) - 1"
    by linarith
  have shape: "cur p0 = [] @ ''guard'' @ [] @ CHR ''='' # [] @ [] @ ds @ []"
    by (simp add: p0_def)
  have nm: "\<forall>c\<in>set ''guard''. name_char c"
    by (simp add: name_char_def isspace_def)
  have acc: "int v = (if [] = ''-'' then - digits_value 0 ds else digits_value 0 ds)"
    using v(1) by simp
  have e: "\<forall>c\<in>set []. isspace c" "[] = [] \<or> [] = ''+'' \<or> [] = ''-''"
    "[] = [] \<or> \<not> isdigit (hd [])"
    "ds = [] \<and> [] = [] \<longrightarrow>
      [] = [] \<or> (\<not> isspace (hd []) \<and> hd [] \<noteq> CHR ''+'' \<and> hd [] \<noteq> CHR ''-'')"
    by simp_all
  note gn = Get_number_form [OF shape e(1) nm e(1) e(1) e(2) ds(2) e(3) e(4) acc refl,
      of "([], 0 :: 'a word, False)"]
  have f1: "\<not> 2 ^ (LENGTH('a) - 1) - 1 < int v"
    using fits by linarith
  have f2: "\<not> int v < - (2 ^ (LENGTH('a) - 1))"
    using p14 by linarith
  have f3: "\<not> int v < 0"
    by simp
  have g: "Get p0 ([], 0, False) = (True, \<lparr>cur = [], done = False\<rparr>, (''guard'', val, True), [])"
    unfolding gn using f1 f2 f3 ds(1) by (simp add: val_def p0_def deref_def)
  have b1: "\<not> val < 1"
    using uv v(2) by (simp add: word_less_nat_alt)
  have b2: "\<not> 16384 < val"
    using uv v(3) unat_16384 [OF len] by (simp add: word_less_nat_alt)
  have fl: "feature_loop ''guard'' (features K) val True False c0 = (True, True, c1, [])"
    unfolding c1_def by (rule feature_loop_guard [OF b1 b2])
  have w2: "while_loop (features K) \<lparr>cur = [], done = False\<rparr> (''guard'', val, True) True c1
      = (True, \<lparr>cur = [], done = True\<rparr>, c1, [])"
    by (rule while_loop_Get_False) (rule Get_at_end)
  have w: "while_loop (features K) p0 ([], 0, False) False c0 = (True, \<lparr>cur = [], done = True\<rparr>, c1, [])"
    using while_loop_next [OF g fl] w2 by simp
  have sl: "strlen (''guard='' @ ds) \<noteq> 0"
    by (simp add: strlen_def)
  have r: "SetFromProperties K (''guard='' @ ds) this = (True, adjust K c1, [])"
    using w sl by (simp add: SetFromProperties_def p0_def c0_def)
  have o1: "options c1 AND FRONT_GUARD K = FRONT_GUARD K"
    and o2: "options c1 AND REAR_GUARD K = REAR_GUARD K"
    by (simp_all add: c1_def or_and_absorb)
  have ov: "unat val + 2 ^ k - 1 < 2 ^ LENGTH('a)"
  proof -
    from len have "2 \<le> LENGTH('a)"
      by simp
    then obtain m where m: "LENGTH('a) = 2 + m"
      using le_Suc_ex by blast
    have a: "(2::nat) ^ k \<le> 2 ^ m"
      using k m by (intro power_increasing) simp_all
    have "(2::nat) ^ 14 \<le> 2 ^ m"
      using len m by (intro power_increasing) simp_all
    then have b: "(16384::nat) \<le> 2 ^ m"
      by simp
    have c: "(2::nat) ^ LENGTH('a) = 4 * 2 ^ m"
      by (simp add: m)
    have "v + 2 ^ k - 1 < 4 * 2 ^ m"
      using a b v(3) by linarith
    then show ?thesis
      by (simp only: uv c)
  qed
  have kl: "k < LENGTH('a)"
    using k by simp
  have fgb: "front_guard_bytes (adjust K c1) = BIONIC_ALIGN val (2 ^ k)"
    using o1 fg by (simp add: adjust_def Let_def c1_def al)
  have "unat (front_guard_bytes (adjust K c1)) = ((v + 2 ^ k - 1) div 2 ^ k) * 2 ^ k"
    unfolding fgb using BIONIC_ALIGN_round_up [OF ov kl] uv by simp
  moreover have "rear_guard_bytes (adjust K c1) = val"
    by (simp add: adjust_def Let_def c1_def)
  moreover have "options (adjust K c1) = options c1"
    by (simp add: adjust_def Let_def)
  moreover have "takeWhile combo_option (tl (features K)) = [features K ! 1, features K ! 2]
    \<and> name (features K ! 1) = ''front_guard'' \<and> name (features K ! 2) = ''rear_guard''"
    by (simp add: features_def mkFeature_def)
  ultimately show ?thesis
    using r o1 o2 uv by simp
qed

theorem guard_sets_both_guards_witness:
  "fst (SetFromProperties lp64 ''guard=10'' zero_Config) = True
   \<and> options (fst (snd (SetFromProperties lp64 ''guard=10'' zero_Config))) AND FRONT_GUARD lp64 = FRONT_GUARD lp64
   \<and> options (fst (snd (SetFromProperties lp64 ''guard=10'' zero_Config))) AND REAR_GUARD lp64 = REAR_GUARD lp64
   \<and> unat (front_guard_bytes (fst (snd (SetFromProperties lp64 ''guard=10'' zero_Config)))) = 16
   \<and> unat (rear_guard_bytes (fst (snd (SetFromProperties lp64 ''guard=10'' zero_Config)))) = 10"
proof -
  have len: "16 \<le> LENGTH(64)"
    by simp
  have fg: "FRONT_GUARD lp64 \<noteq> 0"
    by (simp add: lp64_def)
  have al: "MINIMUM_ALIGNMENT_BYTES lp64 = 2 ^ 4"
    by (simp add: lp64_def)
  have k: "4 + 2 \<le> LENGTH(64)"
    by simp
  have ds: "''10'' \<noteq> []" "\<forall>c\<in>set ''10''. isdigit c"
    by (simp_all add: isdigit_def)
  have v: "digits_value 0 ''10'' = int 10" "1 \<le> (10::nat)" "(10::nat) \<le> 16384"
    by simp_all
  from guard_sets_both_guards [OF len fg al k ds v, of zero_Config]
  show ?thesis
    by simp
qed

text \<open>
  C4. On \<^verbatim>\<open>"free_track"\<close>, from a Config whose \<^verbatim>\<open>fill_on_free_bytes\<close> is still 0 and
  with a non-zero \<^verbatim>\<open>FILL_ON_FREE\<close> bit, the build succeeds, the \<^verbatim>\<open>FILL_ON_FREE\<close> bit
  is set in \<^verbatim>\<open>options\<close> and \<^verbatim>\<open>fill_on_free_bytes\<close> is \<^verbatim>\<open>SIZE_MAX\<close>, the largest
  \<^verbatim>\<open>size_t\<close>, although the numeric slot of the table entry \<^verbatim>\<open>free_track\<close> is
  \<^verbatim>\<open>free_track_allocations\<close> (which receives the default 100).
\<close>

theorem free_track_alone:
  fixes K :: "'a::len constants"
  assumes fof: "FILL_ON_FREE K \<noteq> 0" and z: "fill_on_free_bytes this = 0"
  shows "fst (SetFromProperties K ''free_track'' this) = True
    \<and> snd (snd (SetFromProperties K ''free_track'' this)) = []
    \<and> options (fst (snd (SetFromProperties K ''free_track'' this))) AND FILL_ON_FREE K = FILL_ON_FREE K
    \<and> fill_on_free_bytes (fst (snd (SetFromProperties K ''free_track'' this))) = SIZE_MAX
    \<and> int (unat (fill_on_free_bytes (fst (snd (SetFromProperties K ''free_track'' this))))) = 2 ^ LENGTH('a) - 1
    \<and> free_track_allocations (fst (snd (SetFromProperties K ''free_track'' this))) = 100
    \<and> name (features K ! 9) = ''free_track''
    \<and> value (features K ! 9) = Some p_free_track_allocations"
proof -
  define c0 where "c0 = initial_values K this"
  define c1 where "c1 = c0\<lparr>free_track_allocations := 100,
      options := options c0 OR (FREE_TRACK K OR FILL_ON_FREE K)\<rparr>"
  have g: "Get \<lparr>cur = ''free_track'', done = False\<rparr> ([], 0 :: 'a word, False)
      = (True, \<lparr>cur = [], done = False\<rparr>, (''free_track'', 0, False), [])"
    by (simp add: Get_def Let_def deref_def isspace_def name_char_def)
  have fl: "feature_loop ''free_track'' (features K) 0 False False c0 = (True, True, c1, [])"
    by (simp add: features_def mkFeature_def SetFeature_def c1_def)
  have w2: "while_loop (features K) \<lparr>cur = [], done = False\<rparr> (''free_track'', 0, False) True c1
      = (True, \<lparr>cur = [], done = True\<rparr>, c1, [])"
    by (rule while_loop_Get_False) (rule Get_at_end)
  have w: "while_loop (features K) \<lparr>cur = ''free_track'', done = False\<rparr> ([], 0, False) False c0
      = (True, \<lparr>cur = [], done = True\<rparr>, c1, [])"
    using while_loop_next [OF g fl] w2 by simp
  have r: "SetFromProperties K ''free_track'' this = (True, adjust K c1, [])"
    using w by (simp add: SetFromProperties_def c0_def strlen_def)
  have o: "options c1 AND FILL_ON_FREE K = FILL_ON_FREE K"
    by (simp add: c1_def or_and_absorb)
  have z1: "fill_on_free_bytes c1 = 0"
    using z by (simp add: c1_def c0_def initial_values_def)
  have a1: "fill_on_free_bytes (adjust K c1) = SIZE_MAX"
    using o fof z1 by (simp add: adjust_def Let_def)
  have a2: "options (adjust K c1) = options c1"
    and a3: "free_track_allocations (adjust K c1) = 100"
    by (simp_all add: adjust_def Let_def c1_def)
  have mx: "int (unat (SIZE_MAX :: 'a word)) = 2 ^ LENGTH('a) - 1"
    by (simp add: SIZE_MAX_def unsigned_minus_1_eq_mask mask_eq_exp_minus_1)
  have t: "name (features K ! 9) = ''free_track''"
    "value (features K ! 9) = Some p_free_track_allocations"
    by (simp_all add: features_def mkFeature_def)
  show ?thesis
    using r o a1 a2 a3 mx t by simp
qed

theorem free_track_alone_witness:
  "fst (SetFromProperties lp64 ''free_track'' zero_Config) = True
   \<and> options (fst (snd (SetFromProperties lp64 ''free_track'' zero_Config))) AND 0x10 = 0x10
   \<and> fill_on_free_bytes (fst (snd (SetFromProperties lp64 ''free_track'' zero_Config))) = 0xFFFFFFFFFFFFFFFF"
proof -
  have fof: "FILL_ON_FREE lp64 \<noteq> 0"
    by (simp add: lp64_def)
  have z: "fill_on_free_bytes (zero_Config :: 64 Config) = 0"
    by (simp add: zero_Config_def)
  from free_track_alone [OF fof z]
  show ?thesis
    by (simp add: lp64_def SIZE_MAX_def)
qed

section \<open>Values outside the bounds of an option\<close>

text \<open>
  C5. Let \<open>f\<close> be a table entry with a numeric output slot \<open>sl\<close>.

  \<^verbatim>\<open>SetFeature\<close> on \<open>f\<close>: with a supplied value below \<open>min_value f\<close> or above
  \<open>max_value f\<close> it returns false, logs the message that names the option and the bound
  it violates, and leaves the slot as it was; with a supplied value within the bounds (the
  bounds included) it returns true and the slot holds the value; without a supplied value it
  returns true, logs nothing, and the slot holds \<open>default_value f\<close>.

  At the build: let the loop, after any number \<open>n\<close> of iterations on any property string
  \<open>s\<close>, read a token whose name selects \<open>f\<close>, be it the name of \<open>f\<close> or the combo
  marker in front of it (\<^verbatim>\<open>guard\<close> for both guards, \<^verbatim>\<open>fill\<close> for both fill options).
  If the token has a value outside the bounds of \<open>f\<close>, \<^verbatim>\<open>SetFromProperties\<close> returns
  false and the range message, naming the option as typed, is in its log. Otherwise the loop
  goes on to its next iteration, and there the slot of \<open>f\<close> holds the value of the token,
  or \<open>default_value f\<close> when the token has none. Every entry with a slot is selected
  by its own name (last conjunct).
\<close>

theorem out_of_range_value_rejected:
  assumes nz: "nonzero_bits K"
    and at: "loop_at n (features K) \<lparr>cur = s, done = False\<rparr> ([], 0, False) False (initial_values K this)
        = Some (p, out, found, this')"
    and tok: "Get p out = (True, p', (property, val, vs), msgs)"
    and f: "f \<in> set (applied property (features K))" and sl: "value f = Some sl"
  shows "(val < min_value f \<or> max_value f < val \<longrightarrow>
        SetFeature nm f val True c =
          (False, (case config f of Some b \<Rightarrow> store_config b True c | None \<Rightarrow> c),
           [if val < min_value f then ValueTooSmall nm (unat (min_value f)) (unat val)
            else ValueTooLarge nm (unat (max_value f)) (unat val)])
        \<and> load_value sl (fst (snd (SetFeature nm f val True c))) = load_value sl c)
    \<and> (min_value f \<le> val \<and> val \<le> max_value f \<longrightarrow>
        fst (SetFeature nm f val True c) = True
        \<and> load_value sl (fst (snd (SetFeature nm f val True c))) = val)
    \<and> fst (SetFeature nm f v False c) = True
    \<and> load_value sl (fst (snd (SetFeature nm f v False c))) = default_value f
    \<and> snd (snd (SetFeature nm f v False c)) = []
    \<and> (vs \<and> (val < min_value f \<or> max_value f < val) \<longrightarrow>
        fst (SetFromProperties K s this) = False
        \<and> (if val < min_value f then ValueTooSmall property (unat (min_value f)) (unat val)
            else ValueTooLarge property (unat (max_value f)) (unat val))
           \<in> set (snd (snd (SetFromProperties K s this))))
    \<and> (\<not> (vs \<and> (val < min_value f \<or> max_value f < val)) \<longrightarrow>
        (\<exists>this''. loop_at (Suc n) (features K) \<lparr>cur = s, done = False\<rparr> ([], 0, False) False
              (initial_values K this) = Some (p', (property, val, vs), True, this'')
          \<and> load_value sl this'' = (if vs then val else default_value f)))
    \<and> (\<forall>g\<in>set (features K). value g \<noteq> None \<longrightarrow> g \<in> set (applied (name g) (features K)))"
proof -
  have a: "val < min_value f \<or> max_value f < val \<longrightarrow>
        SetFeature nm f val True c =
          (False, (case config f of Some b \<Rightarrow> store_config b True c | None \<Rightarrow> c),
           [if val < min_value f then ValueTooSmall nm (unat (min_value f)) (unat val)
            else ValueTooLarge nm (unat (max_value f)) (unat val)])
        \<and> load_value sl (fst (snd (SetFeature nm f val True c))) = load_value sl c"
    using sl by (auto simp: SetFeature_def Let_def load_value_after_config)
  have b: "min_value f \<le> val \<and> val \<le> max_value f \<longrightarrow>
        fst (SetFeature nm f val True c) = True
        \<and> load_value sl (fst (snd (SetFeature nm f val True c))) = val"
    using sl by (auto simp: SetFeature_def Let_def load_value_store_same)
  have d: "fst (SetFeature nm f v False c) = True
      \<and> load_value sl (fst (snd (SetFeature nm f v False c))) = default_value f
      \<and> snd (snd (SetFeature nm f v False c)) = []"
    using sl by (simp add: SetFeature_def Let_def load_value_store_same)
  have e: "vs \<and> (val < min_value f \<or> max_value f < val) \<longrightarrow>
        fst (SetFromProperties K s this) = False
        \<and> (if val < min_value f then ValueTooSmall property (unat (min_value f)) (unat val)
            else ValueTooLarge property (unat (max_value f)) (unat val))
           \<in> set (snd (snd (SetFromProperties K s this)))"
  proof
    assume bad: "vs \<and> (val < min_value f \<or> max_value f < val)"
    with feature_loop_applied [OF nz f sl, of vs val found this'] obtain this'' where
      fl: "feature_loop property (features K) val vs found this' =
        (False, found, this'', [range_msg property f val])"
      by blast
    have w: "while_loop (features K) p out found this' =
        (False, p', this'', msgs @ [range_msg property f val])"
      using while_loop_feature_False [OF tok fl] .
    have len: "strlen s \<noteq> 0"
      using loop_at_strlen [OF at] tok by simp
    from build_fails_at [OF at w _ len] obtain pre where
      "SetFromProperties K s this = (False, this'', pre @ (msgs @ [range_msg property f val]) @ [Usage])"
      by auto
    then have "fst (SetFromProperties K s this) = False"
      and "range_msg property f val \<in> set (snd (snd (SetFromProperties K s this)))"
      by simp_all
    then show "fst (SetFromProperties K s this) = False
        \<and> (if val < min_value f then ValueTooSmall property (unat (min_value f)) (unat val)
            else ValueTooLarge property (unat (max_value f)) (unat val))
           \<in> set (snd (snd (SetFromProperties K s this)))"
      by (simp add: range_msg_def)
  qed
  have g: "\<not> (vs \<and> (val < min_value f \<or> max_value f < val)) \<longrightarrow>
        (\<exists>this''. loop_at (Suc n) (features K) \<lparr>cur = s, done = False\<rparr> ([], 0, False) False
              (initial_values K this) = Some (p', (property, val, vs), True, this'')
          \<and> load_value sl this'' = (if vs then val else default_value f))"
  proof
    assume ok: "\<not> (vs \<and> (val < min_value f \<or> max_value f < val))"
    with feature_loop_applied [OF nz f sl, of vs val found this'] obtain this'' where
      fl: "feature_loop property (features K) val vs found this' = (True, True, this'', [])"
      and ld: "load_value sl this'' = (if vs then val else default_value f)"
      by blast
    from loop_at_Suc_end [OF at tok fl] ld
    show "\<exists>this''. loop_at (Suc n) (features K) \<lparr>cur = s, done = False\<rparr> ([], 0, False) False
              (initial_values K this) = Some (p', (property, val, vs), True, this'')
          \<and> load_value sl this'' = (if vs then val else default_value f)"
      by blast
  qed
  have h: "\<forall>g\<in>set (features K). value g \<noteq> None \<longrightarrow> g \<in> set (applied (name g) (features K))"
    using nz by (simp add: features_def mkFeature_def nonzero_bits_def)
  from a b d e g h show ?thesis
    by blast
qed


theorem out_of_range_value_rejected_witness:
  "fst (SetFromProperties lp64 ''backtrace=0'' zero_Config) = False
   \<and> ValueTooSmall ''backtrace'' 1 0 \<in> set (snd (snd (SetFromProperties lp64 ''backtrace=0'' zero_Config)))
   \<and> fst (SetFromProperties lp64 ''guard=16385'' zero_Config) = False
   \<and> ValueTooLarge ''guard'' 16384 16385 \<in> set (snd (snd (SetFromProperties lp64 ''guard=16385'' zero_Config)))
   \<and> loop_at 1 (features lp64) \<lparr>cur = ''guard'', done = False\<rparr> ([], 0, False) False
        (initial_values lp64 zero_Config) \<noteq> None
   \<and> rear_guard_bytes (snd (snd (snd (the (loop_at 1 (features lp64) \<lparr>cur = ''guard'', done = False\<rparr>
        ([], 0, False) False (initial_values lp64 zero_Config)))))) = 32"
proof -
  have nz: "nonzero_bits lp64"
    by (simp add: nonzero_bits_def lp64_def)
  have at: "\<And>s. loop_at 0 (features lp64) \<lparr>cur = s, done = False\<rparr> ([], 0, False) False
      (initial_values lp64 zero_Config)
      = Some (\<lparr>cur = s, done = False\<rparr>, ([], 0, False), False, initial_values lp64 zero_Config)"
    by simp
  have tok1: "Get \<lparr>cur = ''backtrace=0'', done = False\<rparr> ([], 0 :: 64 word, False)
      = (True, \<lparr>cur = [], done = False\<rparr>, (''backtrace'', 0, True), [])"
    by (simp add: eval_defs)
  have f1: "features lp64 ! 3 \<in> set (applied ''backtrace'' (features lp64))"
    by (simp add: features_def mkFeature_def lp64_def)
  have sl1: "value (features lp64 ! 3) = Some p_backtrace_frames"
    by (simp add: features_def mkFeature_def)
  have tok2: "Get \<lparr>cur = ''guard=16385'', done = False\<rparr> ([], 0 :: 64 word, False)
      = (True, \<lparr>cur = [], done = False\<rparr>, (''guard'', 16385, True), [])"
    by (simp add: eval_defs)
  have f2: "features lp64 ! 2 \<in> set (applied ''guard'' (features lp64))"
    by (simp add: features_def mkFeature_def lp64_def)
  have sl2: "value (features lp64 ! 2) = Some p_rear_guard_bytes"
    by (simp add: features_def mkFeature_def)
  have tok3: "Get \<lparr>cur = ''guard'', done = False\<rparr> ([], 0 :: 64 word, False)
      = (True, \<lparr>cur = [], done = False\<rparr>, (''guard'', 0, False), [])"
    by (simp add: eval_defs)
  from out_of_range_value_rejected [OF nz at tok1 f1 sl1, of "[]" zero_Config 0]
  have a: "fst (SetFromProperties lp64 ''backtrace=0'' zero_Config) = False
   \<and> ValueTooSmall ''backtrace'' 1 0 \<in> set (snd (snd (SetFromProperties lp64 ''backtrace=0'' zero_Config)))"
    by (simp add: features_def mkFeature_def)
  from out_of_range_value_rejected [OF nz at tok2 f2 sl2, of "[]" zero_Config 0]
  have b: "fst (SetFromProperties lp64 ''guard=16385'' zero_Config) = False
   \<and> ValueTooLarge ''guard'' 16384 16385 \<in> set (snd (snd (SetFromProperties lp64 ''guard=16385'' zero_Config)))"
    by (simp add: features_def mkFeature_def)
  from out_of_range_value_rejected [OF nz at tok3 f2 sl2, of "[]" zero_Config 0]
  obtain this'' where "loop_at (Suc 0) (features lp64) \<lparr>cur = ''guard'', done = False\<rparr> ([], 0, False) False
        (initial_values lp64 zero_Config) = Some (\<lparr>cur = [], done = False\<rparr>, (''guard'', 0, False), True, this'')"
    and "load_value p_rear_guard_bytes this'' = default_value (features lp64 ! 2)"
    by auto
  then have c: "loop_at 1 (features lp64) \<lparr>cur = ''guard'', done = False\<rparr> ([], 0, False) False
        (initial_values lp64 zero_Config) \<noteq> None
   \<and> rear_guard_bytes (snd (snd (snd (the (loop_at 1 (features lp64) \<lparr>cur = ''guard'', done = False\<rparr>
        ([], 0, False) False (initial_values lp64 zero_Config)))))) = 32"
    by (simp add: features_def mkFeature_def)
  from a b c show ?thesis
    by blast
qed

section \<open>Malformed values\<close>

text \<open>
  C6. Take any token of the form name=V that the loop reaches (after any number \<open>n\<close> of
  iterations): the text at the parser is whitespace \<open>ws\<close>, the name \<open>nm\<close>, whitespace
  \<open>ws2\<close>, the character =, and V, which is whitespace \<open>ws3\<close>, an optional sign
  \<open>sg\<close>, the longest run of digits \<open>ds\<close> and the rest (with neither sign nor digit the
  rest starts with neither whitespace nor a sign, so that the text determines the parts);
  \<open>acc\<close> is the signed number the digits denote. \<^verbatim>\<open>Get\<close> returns false exactly when the text is unparsable (there is no
  digit, or the number does not fit a \<^verbatim>\<open>long\<close> and \<^verbatim>\<open>strtol\<close> sets
  \<^verbatim>\<open>errno\<close>), or a character that is neither whitespace nor the terminator follows the
  digits, or the number is negative. When it returns false it logs a message, and
  \<^verbatim>\<open>SetFromProperties\<close> returns false with that message in its log. The witness is the
  second token of \<^verbatim>\<open>"backtrace=10 extra_garbage=notanumber"\<close>.
\<close>

theorem value_token_failure:
  fixes K :: "'a::len constants"
  assumes at: "loop_at n (features K) \<lparr>cur = s, done = False\<rparr> ([], 0, False) False (initial_values K this)
        = Some (p, out, found, this')"
    and shape: "cur p = ws @ nm @ ws2 @ CHR ''='' # ws3 @ sg @ ds @ rest"
    and ws: "\<forall>c\<in>set ws. isspace c" and nm: "\<forall>c\<in>set nm. name_char c"
    and ws2: "\<forall>c\<in>set ws2. isspace c" and ws3: "\<forall>c\<in>set ws3. isspace c"
    and sg: "sg = [] \<or> sg = ''+'' \<or> sg = ''-''"
    and ds: "\<forall>c\<in>set ds. isdigit c" and rest: "rest = [] \<or> \<not> isdigit (hd rest)"
    and nodigit: "ds = [] \<and> sg = [] \<longrightarrow>
      rest = [] \<or> (\<not> isspace (hd rest) \<and> hd rest \<noteq> CHR ''+'' \<and> hd rest \<noteq> CHR ''-'')"
    and acc: "acc = (if sg = ''-'' then - digits_value 0 ds else digits_value 0 ds)"
  shows "(fst (Get p out) = False) =
      ((ds = [] \<or> acc > 2 ^ (LENGTH('a) - 1) - 1 \<or> acc < - (2 ^ (LENGTH('a) - 1)))
       \<or> (rest \<noteq> [] \<and> \<not> isspace (hd rest) \<and> hd rest \<noteq> CHR 0x00)
       \<or> acc < 0)
    \<and> (fst (Get p out) = False \<longrightarrow>
         snd (snd (snd (Get p out))) \<noteq> []
         \<and> fst (SetFromProperties K s this) = False
         \<and> set (snd (snd (snd (Get p out)))) \<subseteq> set (snd (snd (SetFromProperties K s this))))"
proof -
  note g = Get_number_form [OF shape ws nm ws2 ws3 sg ds rest nodigit acc refl, of out]
  have iff: "(fst (Get p out) = False) =
      ((ds = [] \<or> acc > 2 ^ (LENGTH('a) - 1) - 1 \<or> acc < - (2 ^ (LENGTH('a) - 1)))
       \<or> (rest \<noteq> [] \<and> \<not> isspace (hd rest) \<and> hd rest \<noteq> CHR 0x00)
       \<or> acc < 0)"
    unfolding g deref_hd by auto
  have "snd (snd (snd (Get p out))) \<noteq> []
         \<and> fst (SetFromProperties K s this) = False
         \<and> set (snd (snd (snd (Get p out)))) \<subseteq> set (snd (snd (SetFromProperties K s this)))"
    if fail: "fst (Get p out) = False"
  proof -
    obtain q out' msgs where gq: "Get p out = (False, q, out', msgs)"
      using fail by (cases "Get p out") auto
    have q: "q = p\<lparr>cur := ws3 @ sg @ ds @ rest\<rparr>" and msgs: "msgs \<noteq> []"
      using gq unfolding g by (auto split: if_splits)
    have "done p = False"
      using loop_at_done [OF at] by simp
    then have nd: "\<not> done q"
      by (simp add: q)
    have w: "while_loop (features K) p out found this' = (True, q, this', msgs)"
      using while_loop_Get_False [OF gq] .
    have len: "strlen s \<noteq> 0"
      using loop_at_strlen [OF at] nd gq by simp
    from build_fails_at [OF at w _ len] nd obtain pre where
      "SetFromProperties K s this = (False, this', pre @ msgs @ [Usage])"
      by auto
    then show ?thesis
      using msgs gq by auto
  qed
  with iff show ?thesis by blast
qed

theorem value_token_failure_witness:
  "fst (Get \<lparr>cur = '' extra_garbage=notanumber'', done = False\<rparr> (''backtrace'', 10 :: 64 word, True)) = False
   \<and> fst (SetFromProperties lp64 ''backtrace=10 extra_garbage=notanumber'' zero_Config) = False
   \<and> BadValue ''extra_garbage''
       \<in> set (snd (snd (SetFromProperties lp64 ''backtrace=10 extra_garbage=notanumber'' zero_Config)))"
proof -
  have at: "loop_at 1 (features lp64) \<lparr>cur = ''backtrace=10 extra_garbage=notanumber'', done = False\<rparr>
      ([], 0, False) False (initial_values lp64 zero_Config)
      = Some (\<lparr>cur = '' extra_garbage=notanumber'', done = False\<rparr>, (''backtrace'', 10, True), True,
          (initial_values lp64 zero_Config)\<lparr>backtrace_enabled := True, backtrace_frames := 10,
             options := 0x84\<rparr>)"
    by (simp add: eval_defs lp64_def zero_Config_def)
  have shape: "cur \<lparr>cur = '' extra_garbage=notanumber'', done = False\<rparr>
      = '' '' @ ''extra_garbage'' @ [] @ CHR ''='' # [] @ [] @ [] @ ''notanumber''"
    by simp
  have nm: "\<forall>c\<in>set ''extra_garbage''. name_char c"
    by (simp add: name_char_def isspace_def)
  have ws: "\<forall>c\<in>set '' ''. isspace c"
    by (simp add: isspace_def)
  have rest: "''notanumber'' = [] \<or> \<not> isdigit (hd ''notanumber'')"
    by (simp add: isdigit_def)
  have nodigit: "[] = [] \<and> [] = [] \<longrightarrow> ''notanumber'' = [] \<or> (\<not> isspace (hd ''notanumber'') \<and> hd ''notanumber'' \<noteq> CHR ''+''
      \<and> hd ''notanumber'' \<noteq> CHR ''-'')"
    by (simp add: isspace_def)
  have msgs: "snd (snd (snd (Get \<lparr>cur = '' extra_garbage=notanumber'', done = False\<rparr>
      (''backtrace'', 10 :: 64 word, True)))) = [BadValue ''extra_garbage'']"
    by (simp add: eval_defs)
  from value_token_failure [OF at shape ws nm _ _ _ _ rest nodigit refl]
  show ?thesis
    by (simp add: msgs)
qed

section \<open>A value for an option that takes none\<close>

text \<open>
  C7. A table entry that is no combo marker and has no numeric output slot is the entry
  \<^verbatim>\<open>leak_track\<close>. For it \<^verbatim>\<open>SetFeature\<close> returns false with the message "value set
  for option which does not take a value" when a value was supplied, and true without one.
  Whenever the loop reads a token that names it with a value, \<^verbatim>\<open>SetFromProperties\<close>
  returns false and the message is in its log; when the token has no value the iteration
  succeeds and ORs the option bits of the entry into \<^verbatim>\<open>options\<close>.
\<close>

theorem value_for_valueless_option_rejected:
  assumes f: "f \<in> set (features K)" and nov: "value f = None"
    and nomark: "\<not> (option f = 0 \<and> combo_option f)"
    and at: "loop_at n (features K) \<lparr>cur = s, done = False\<rparr> ([], 0, False) False (initial_values K this)
        = Some (p, out, found, this')"
    and tok: "Get p out = (True, p', (name f, val, vs), msgs)"
  shows "name f = ''leak_track''
    \<and> SetFeature nm f v True c = (False, c, [TakesNoValue nm])
    \<and> SetFeature nm f v False c = (True, c, [])
    \<and> (vs \<longrightarrow> fst (SetFromProperties K s this) = False
          \<and> TakesNoValue (name f) \<in> set (snd (snd (SetFromProperties K s this))))
    \<and> (\<not> vs \<longrightarrow> loop_at (Suc n) (features K) \<lparr>cur = s, done = False\<rparr> ([], 0, False) False
            (initial_values K this)
          = Some (p', (name f, val, vs), True, this'\<lparr>options := options this' OR option f\<rparr>))"
proof -
  have f11: "f = features K ! 11"
    using valueless_entry [OF f nov nomark] .
  then have nm: "name f = ''leak_track''" and cf: "config f = None"
    and opt: "option f = (LEAK_TRACK K OR TRACK_ALLOCS K)"
    by (simp_all add: features_def mkFeature_def)
  have a: "SetFeature nm f v True c = (False, c, [TakesNoValue nm])"
    and b: "SetFeature nm f v False c = (True, c, [])"
    using nov cf by (simp_all add: SetFeature_def)
  have len: "strlen s \<noteq> 0"
    using loop_at_strlen [OF at] tok by simp
  have c: "fst (SetFromProperties K s this) = False
          \<and> TakesNoValue (name f) \<in> set (snd (snd (SetFromProperties K s this)))" if vs
  proof -
    have fl: "feature_loop (name f) (features K) val vs found this' =
        (False, found, this', [TakesNoValue (name f)])"
      using that by (simp add: nm feature_loop_leak_track)
    have w: "while_loop (features K) p out found this' = (False, p', this', msgs @ [TakesNoValue (name f)])"
      using while_loop_feature_False [OF tok fl] .
    from build_fails_at [OF at w _ len] obtain pre where
      "SetFromProperties K s this = (False, this', pre @ (msgs @ [TakesNoValue (name f)]) @ [Usage])"
      by auto
    then show ?thesis by simp
  qed
  have d: "loop_at (Suc n) (features K) \<lparr>cur = s, done = False\<rparr> ([], 0, False) False
            (initial_values K this)
          = Some (p', (name f, val, vs), True, this'\<lparr>options := options this' OR option f\<rparr>)" if "\<not> vs"
  proof -
    have fl: "feature_loop (name f) (features K) val vs found this' =
        (True, True, this'\<lparr>options := options this' OR option f\<rparr>, [])"
      using that by (simp add: nm opt feature_loop_leak_track)
    show ?thesis
      using loop_at_Suc_end [OF at tok fl] .
  qed
  from nm a b c d show ?thesis by blast
qed

theorem value_for_valueless_option_rejected_witness:
  "fst (SetFromProperties lp64 ''leak_track=1'' zero_Config) = False
   \<and> TakesNoValue ''leak_track'' \<in> set (snd (snd (SetFromProperties lp64 ''leak_track=1'' zero_Config)))
   \<and> fst (SetFromProperties lp64 ''leak_track'' zero_Config) = True"
proof -
  have f: "features lp64 ! 11 \<in> set (features lp64)"
    by (simp add: features_def)
  have nov: "value (features lp64 ! 11) = None"
    by (simp add: features_def mkFeature_def)
  have nomark: "\<not> (option (features lp64 ! 11) = 0 \<and> combo_option (features lp64 ! 11))"
    by (simp add: features_def mkFeature_def)
  have at: "loop_at 0 (features lp64) \<lparr>cur = ''leak_track=1'', done = False\<rparr> ([], 0, False) False
      (initial_values lp64 zero_Config)
      = Some (\<lparr>cur = ''leak_track=1'', done = False\<rparr>, ([], 0, False), False, initial_values lp64 zero_Config)"
    by simp
  have tok: "Get \<lparr>cur = ''leak_track=1'', done = False\<rparr> ([], 0 :: 64 word, False)
      = (True, \<lparr>cur = [], done = False\<rparr>, (name (features lp64 ! 11), 1, True), [])"
    by (simp add: eval_defs)
  have ok: "fst (SetFromProperties lp64 ''leak_track'' zero_Config) = True"
    by (simp add: eval_defs lp64_def zero_Config_def)
  from value_for_valueless_option_rejected [OF f nov nomark at tok] ok
  show ?thesis
    by (simp add: features_def mkFeature_def)
qed

section \<open>Building twice\<close>

lemma load_store_value:
  "load_value x (store_value x' v c) = (if x = x' then v else load_value x c)"
  by (cases x; cases x') simp_all

lemma load_config_store_value: "load_config y (store_value x v c) = load_config y c"
  by (cases x; cases y) simp_all

lemma load_store_config:
  "load_config y (store_config y' b c) = (if y = y' then b else load_config y c)"
  by (cases y; cases y') simp_all

lemma load_value_store_config: "load_value x (store_config y b c) = load_value x c"
  by (cases x; cases y) simp_all

lemma options_store: "options (store_value x v c) = options c" "options (store_config y b c) = options c"
  by (cases x; simp) (cases y; simp)

lemma others_store_value:
  "backtrace_signal (store_value x v c) = backtrace_signal c"
  "fill_alloc_value (store_value x v c) = fill_alloc_value c"
  "fill_free_value (store_value x v c) = fill_free_value c"
  "front_guard_value (store_value x v c) = front_guard_value c"
  "rear_guard_value (store_value x v c) = rear_guard_value c"
  by (cases x; simp)+

lemma others_store_config:
  "backtrace_signal (store_config y b c) = backtrace_signal c"
  "fill_alloc_value (store_config y b c) = fill_alloc_value c"
  "fill_free_value (store_config y b c) = fill_free_value c"
  "front_guard_value (store_config y b c) = front_guard_value c"
  "rear_guard_value (store_config y b c) = rear_guard_value c"
  by (cases y; simp)+

lemma load_options_update:
  "load_value x (c\<lparr>options := o'\<rparr>) = load_value x c"
  "load_config y (c\<lparr>options := o'\<rparr>) = load_config y c"
  by (cases x; simp) (cases y; simp)

lemma setter_id: "setter (\<lambda>c. c)"
proof -
  have "\<exists>m. \<forall>c :: 'a Config. options c = options c OR m"
    by (rule exI [of _ 0]) simp
  then show ?thesis
    unfolding setter_def by simp
qed

lemma setter_store_value: "setter (store_value x v)"
proof -
  have "\<exists>m. \<forall>c :: 'a Config. options (store_value x v c) = options c OR m"
    by (rule exI [of _ 0]) (simp add: options_store)
  moreover have "\<forall>x'. (\<forall>c. load_value x' (store_value x v c) = load_value x' c)
      \<or> (\<exists>k. \<forall>c. load_value x' (store_value x v c) = k)"
    by (simp add: load_store_value)
  ultimately show ?thesis
    unfolding setter_def by (simp add: load_config_store_value others_store_value)
qed

lemma setter_store_config: "setter (store_config y True)"
proof -
  have "\<exists>m. \<forall>c :: 'a Config. options (store_config y True c) = options c OR m"
    by (rule exI [of _ 0]) (simp add: options_store)
  moreover have "\<forall>y'. (\<forall>c :: 'a Config. load_config y' (store_config y True c) = load_config y' c)
      \<or> (\<forall>c :: 'a Config. load_config y' (store_config y True c))"
    by (simp add: load_store_config)
  ultimately show ?thesis
    unfolding setter_def by (simp add: load_value_store_config others_store_config)
qed

lemma setter_options: "setter (\<lambda>c. c\<lparr>options := options c OR m\<rparr>)"
proof -
  have "\<exists>m'. \<forall>c :: 'a Config. options (c\<lparr>options := options c OR m\<rparr>) = options c OR m'"
    by (rule exI [of _ m]) simp
  then show ?thesis
    unfolding setter_def by (simp add: load_options_update)
qed

lemma setter_comp:
  assumes f: "setter f" and g: "setter g"
  shows "setter (\<lambda>c. g (f c))"
proof -
  from f obtain mf where mf: "\<forall>c. options (f c) = options c OR mf"
    unfolding setter_def by blast
  from g obtain mg where mg: "\<forall>c. options (g c) = options c OR mg"
    unfolding setter_def by blast
  have o: "\<forall>c. options (g (f c)) = options c OR (mf OR mg)"
    using mf mg by (simp add: or.assoc)
  have v: "(\<forall>c. load_value x (g (f c)) = load_value x c) \<or> (\<exists>k. \<forall>c. load_value x (g (f c)) = k)" for x
  proof -
    from f have fx: "(\<forall>c. load_value x (f c) = load_value x c) \<or> (\<exists>k. \<forall>c. load_value x (f c) = k)"
      unfolding setter_def by blast
    from g have gx: "(\<forall>c. load_value x (g c) = load_value x c) \<or> (\<exists>k. \<forall>c. load_value x (g c) = k)"
      unfolding setter_def by blast
    from gx show ?thesis
    proof
      assume p: "\<forall>c. load_value x (g c) = load_value x c"
      from fx show ?thesis
      proof
        assume "\<forall>c. load_value x (f c) = load_value x c"
        with p show ?thesis by simp
      next
        assume "\<exists>k. \<forall>c. load_value x (f c) = k"
        then obtain k where "\<forall>c. load_value x (f c) = k" by blast
        with p have "\<forall>c. load_value x (g (f c)) = k" by simp
        then show ?thesis by blast
      qed
    next
      assume "\<exists>k. \<forall>c. load_value x (g c) = k"
      then obtain k where "\<forall>c. load_value x (g c) = k" by blast
      then have "\<forall>c. load_value x (g (f c)) = k" by simp
      then show ?thesis by blast
    qed
  qed
  have b: "(\<forall>c. load_config y (g (f c)) = load_config y c) \<or> (\<forall>c. load_config y (g (f c)))" for y
  proof -
    from f have fy: "(\<forall>c. load_config y (f c) = load_config y c) \<or> (\<forall>c. load_config y (f c))"
      unfolding setter_def by blast
    from g have gy: "(\<forall>c. load_config y (g c) = load_config y c) \<or> (\<forall>c. load_config y (g c))"
      unfolding setter_def by blast
    from fy gy show ?thesis
      by auto
  qed
  have r: "\<forall>c. backtrace_signal (g (f c)) = backtrace_signal c
          \<and> fill_alloc_value (g (f c)) = fill_alloc_value c
          \<and> fill_free_value (g (f c)) = fill_free_value c
          \<and> front_guard_value (g (f c)) = front_guard_value c
          \<and> rear_guard_value (g (f c)) = rear_guard_value c"
    using f g unfolding setter_def by simp
  from o v b r show ?thesis
    unfolding setter_def by blast
qed

lemma SetFeature_setter:
  "\<exists>ok msgs T. setter T \<and> (\<forall>c. SetFeature nm f val vs c = (ok, T c, msgs))"
proof -
  define T0 :: "'a Config \<Rightarrow> 'a Config" where
    "T0 = (\<lambda>c. case config f of Some p \<Rightarrow> store_config p True c | None \<Rightarrow> c)"
  have s0: "setter T0"
    unfolding T0_def by (cases "config f") (simp_all add: setter_id setter_store_config)
  show ?thesis
  proof (cases "value f")
    case None
    then have "\<forall>c. SetFeature nm f val vs c = (\<not> vs, T0 c, if vs then [TakesNoValue nm] else [])"
      by (simp add: SetFeature_def T0_def)
    with s0 show ?thesis by blast
  next
    case (Some p)
    show ?thesis
    proof (cases "vs \<and> (val < min_value f \<or> val > max_value f)")
      case True
      then have "\<forall>c. SetFeature nm f val vs c = (False, T0 c,
          [if val < min_value f then ValueTooSmall nm (unat (min_value f)) (unat val)
           else ValueTooLarge nm (unat (max_value f)) (unat val)])"
        using Some by (auto simp: SetFeature_def T0_def)
      with s0 show ?thesis by blast
    next
      case False
      define v where "v = (if vs then val else default_value f)"
      have "\<forall>c. SetFeature nm f val vs c = (True, store_value p v (T0 c), [])"
        using Some False by (auto simp: SetFeature_def T0_def v_def)
      moreover have "setter (\<lambda>c. store_value p v (T0 c))"
        using s0 setter_store_value by (rule setter_comp)
      ultimately show ?thesis by blast
    qed
  qed
qed

lemma combo_loop_setter:
  "\<exists>valid msgs T. setter T \<and> (\<forall>c. combo_loop property fs val vs c = (valid, T c, msgs))"
proof (induction fs)
  case Nil
  have "\<forall>c :: 'a Config. combo_loop property [] val vs c = (True, c, [])"
    by simp
  with setter_id show ?case by blast
next
  case (Cons f fs)
  show ?case
  proof (cases "combo_option f")
    case False
    then have "\<forall>c. combo_loop property (f # fs) val vs c = (True, c, [])"
      by simp
    with setter_id show ?thesis by blast
  next
    case True
    obtain ok msgs T where T: "setter T" and sf: "\<forall>c. SetFeature property f val vs c = (ok, T c, msgs)"
      using SetFeature_setter by blast
    show ?thesis
    proof (cases ok)
      case False
      then have "\<forall>c. combo_loop property (f # fs) val vs c = (False, T c, msgs)"
        using True sf by simp
      with T show ?thesis by blast
    next
      case ok: True
      obtain valid msgs' T' where T': "setter T'"
        and cl: "\<forall>c. combo_loop property fs val vs c = (valid, T' c, msgs')"
        using Cons.IH by blast
      define U where "U = (\<lambda>c. T' ((T c)\<lparr>options := options (T c) OR option f\<rparr>))"
      have "setter (\<lambda>c. (T c)\<lparr>options := options (T c) OR option f\<rparr>)"
        using T setter_options [of "option f"] by (rule setter_comp)
      then have "setter U"
        unfolding U_def using T' by (rule setter_comp)
      moreover have "\<forall>c. combo_loop property (f # fs) val vs c = (valid, U c, msgs @ msgs')"
        using True sf ok cl by (simp add: U_def)
      ultimately show ?thesis by blast
    qed
  qed
qed

lemma feature_loop_setter:
  "\<exists>valid found' msgs T. setter T
     \<and> (\<forall>c. feature_loop property fs val vs found c = (valid, found', T c, msgs))"
proof (induction fs)
  case Nil
  have "\<forall>c :: 'a Config. feature_loop property [] val vs found c = (True, found, c, [])"
    by simp
  with setter_id show ?case by blast
next
  case (Cons f fs)
  show ?case
  proof (cases "property = name f")
    case False
    then have "\<forall>c. feature_loop property (f # fs) val vs found c
        = feature_loop property fs val vs found c"
      by simp
    with Cons.IH show ?thesis by simp
  next
    case True
    show ?thesis
    proof (cases "option f = 0 \<and> combo_option f")
      case marker: True
      obtain valid msgs T where T: "setter T"
        and cl: "\<forall>c. combo_loop property fs val vs c = (valid, T c, msgs)"
        using combo_loop_setter by blast
      have "\<forall>c. feature_loop property (f # fs) val vs found c
          = (valid, (if valid then True else found), T c, msgs)"
        using True marker cl by simp
      with T show ?thesis by blast
    next
      case False
      obtain ok msgs T where T: "setter T" and sf: "\<forall>c. SetFeature property f val vs c = (ok, T c, msgs)"
        using SetFeature_setter by blast
      show ?thesis
      proof (cases ok)
        case False
        then have "\<forall>c. feature_loop property (f # fs) val vs found c = (False, found, T c, msgs)"
          using True \<open>\<not> (option f = 0 \<and> combo_option f)\<close> sf by auto
        with T show ?thesis by blast
      next
        case ok: True
        have "setter (\<lambda>c. (T c)\<lparr>options := options (T c) OR option f\<rparr>)"
          using T setter_options [of "option f"] by (rule setter_comp)
        moreover have "\<forall>c. feature_loop property (f # fs) val vs found c
            = (True, True, (T c)\<lparr>options := options (T c) OR option f\<rparr>, msgs)"
          using True \<open>\<not> (option f = 0 \<and> combo_option f)\<close> sf ok by auto
        ultimately show ?thesis by blast
      qed
    qed
  qed
qed

lemma while_loop_setter:
  "\<exists>valid p' msgs T. setter T \<and> (\<forall>c. while_loop fs p out found c = (valid, p', T c, msgs))"
proof (induction "length (cur p)" arbitrary: p out found rule: less_induct)
  case less
  obtain ok p1 property val vs msgs where g: "Get p out = (ok, p1, (property, val, vs), msgs)"
    by (cases "Get p out") auto
  show ?case
  proof (cases ok)
    case False
    with g have "Get p out = (False, p1, (property, val, vs), msgs)"
      by simp
    then have "\<forall>c. while_loop fs p out found c = (True, p1, c, msgs)"
      by (simp add: while_loop_Get_False)
    with setter_id show ?thesis by blast
  next
    case True
    with g have g': "Get p out = (True, p1, (property, val, vs), msgs)"
      by simp
    obtain valid found' msgs' T where T: "setter T"
      and fl: "\<forall>c. feature_loop property fs val vs found c = (valid, found', T c, msgs')"
      using feature_loop_setter by blast
    show ?thesis
    proof (cases valid)
      case False
      then have "\<forall>c. while_loop fs p out found c = (False, p1, T c, msgs @ msgs')"
        using while_loop_feature_False [OF g'] fl by simp
      with T show ?thesis by blast
    next
      case valid: True
      show ?thesis
      proof (cases found')
        case False
        then have "\<forall>c. while_loop fs p out found c
            = (False, p1, T c, msgs @ msgs' @ [UnknownOption property])"
          using while_loop_unknown [OF g'] fl valid by simp
        with T show ?thesis by blast
      next
        case True
        have "length (cur p1) < length (cur p)"
          using g' by (rule Get_shorter)
        then obtain valid2 p2 msgs2 T2 where T2: "setter T2"
          and w2: "\<forall>c. while_loop fs p1 (property, val, vs) True c = (valid2, p2, T2 c, msgs2)"
          using less by blast
        have "\<forall>c. while_loop fs p out found c = (valid2, p2, T2 (T c), msgs @ msgs' @ msgs2)"
          using while_loop_next [OF g'] fl valid True w2 by simp
        moreover have "setter (\<lambda>c. T2 (T c))"
          using T T2 by (rule setter_comp)
        ultimately show ?thesis by blast
      qed
    qed
  qed
qed

lemma adjust_fields:
  "options (adjust K c) = options c"
  "front_guard_bytes (adjust K c) =
     (if options c AND FRONT_GUARD K \<noteq> 0
      then BIONIC_ALIGN (front_guard_bytes c) (MINIMUM_ALIGNMENT_BYTES K) else front_guard_bytes c)"
  "fill_on_free_bytes (adjust K c) =
     (if options c AND FILL_ON_FREE K \<noteq> 0 \<and> fill_on_free_bytes c = 0 then SIZE_MAX
      else fill_on_free_bytes c)"
  "rear_guard_bytes (adjust K c) = rear_guard_bytes c"
  "backtrace_enabled (adjust K c) = backtrace_enabled c"
  "backtrace_enable_on_signal (adjust K c) = backtrace_enable_on_signal c"
  "backtrace_signal (adjust K c) = backtrace_signal c"
  "backtrace_frames (adjust K c) = backtrace_frames c"
  "fill_on_alloc_bytes (adjust K c) = fill_on_alloc_bytes c"
  "expand_alloc_bytes (adjust K c) = expand_alloc_bytes c"
  "free_track_allocations (adjust K c) = free_track_allocations c"
  "free_track_backtrace_num_frames (adjust K c) = free_track_backtrace_num_frames c"
  "fill_alloc_value (adjust K c) = fill_alloc_value c"
  "fill_free_value (adjust K c) = fill_free_value c"
  "front_guard_value (adjust K c) = front_guard_value c"
  "rear_guard_value (adjust K c) = rear_guard_value c"
  by (simp_all add: adjust_def Let_def)

lemma initial_values_fields:
  "options (initial_values K c) = options c"
  "front_guard_bytes (initial_values K c) = front_guard_bytes c"
  "fill_on_free_bytes (initial_values K c) = fill_on_free_bytes c"
  "rear_guard_bytes (initial_values K c) = rear_guard_bytes c"
  "backtrace_enabled (initial_values K c) = backtrace_enabled c"
  "backtrace_enable_on_signal (initial_values K c) = backtrace_enable_on_signal c"
  "backtrace_signal (initial_values K c) = SIGRTMIN K + 10"
  "backtrace_frames (initial_values K c) = backtrace_frames c"
  "fill_on_alloc_bytes (initial_values K c) = fill_on_alloc_bytes c"
  "expand_alloc_bytes (initial_values K c) = expand_alloc_bytes c"
  "free_track_allocations (initial_values K c) = free_track_allocations c"
  "free_track_backtrace_num_frames (initial_values K c) = 16"
  "fill_alloc_value (initial_values K c) = 0xeb"
  "fill_free_value (initial_values K c) = 0xef"
  "front_guard_value (initial_values K c) = 0xaa"
  "rear_guard_value (initial_values K c) = 0xbb"
  by (simp_all add: initial_values_def)

lemma setter_options_D: "setter T \<Longrightarrow> \<exists>m. \<forall>c. options (T c) = options c OR m"
  by (simp add: setter_def)

lemma setter_value_D:
  "setter T \<Longrightarrow> (\<forall>c. load_value x (T c) = load_value x c) \<or> (\<exists>k. \<forall>c. load_value x (T c) = k)"
  by (simp add: setter_def)

lemma setter_config_D:
  "setter T \<Longrightarrow> (\<forall>c. load_config y (T c) = load_config y c) \<or> (\<forall>c. load_config y (T c))"
  by (simp add: setter_def)

lemma setter_others_D:
  assumes "setter T"
  shows "backtrace_signal (T c) = backtrace_signal c"
    "fill_alloc_value (T c) = fill_alloc_value c"
    "fill_free_value (T c) = fill_free_value c"
    "front_guard_value (T c) = front_guard_value c"
    "rear_guard_value (T c) = rear_guard_value c"
  using assms by (simp_all add: setter_def)

lemma SIZE_MAX_nonzero: "(SIZE_MAX :: 'a::len word) \<noteq> 0"
  by (simp add: SIZE_MAX_def)

lemma setter_twice_valid:
  fixes T :: "'a::len Config \<Rightarrow> 'a Config"
  assumes T: "setter T"
  shows "adjust K (T (initial_values K (adjust K (T (initial_values K c)))))
      = adjust K (T (initial_values K c))"
proof -
  obtain m where m: "\<And>d. options (T d) = options d OR m"
    using setter_options_D [OF T] by blast
  note simps = adjust_fields initial_values_fields m setter_others_D [OF T] BIONIC_ALIGN_idem
    SIZE_MAX_nonzero
  show ?thesis
  proof (rule Config.equality)
    show "options (adjust K (T (initial_values K (adjust K (T (initial_values K c))))))
        = options (adjust K (T (initial_values K c)))"
      by (simp add: simps)
    show "front_guard_bytes (adjust K (T (initial_values K (adjust K (T (initial_values K c))))))
        = front_guard_bytes (adjust K (T (initial_values K c)))"
      using setter_value_D [OF T, of p_front_guard_bytes]
      by (elim disjE exE) (simp_all add: simps)
    show "rear_guard_bytes (adjust K (T (initial_values K (adjust K (T (initial_values K c))))))
        = rear_guard_bytes (adjust K (T (initial_values K c)))"
      using setter_value_D [OF T, of p_rear_guard_bytes]
      by (elim disjE exE) (simp_all add: simps)
    show "backtrace_enabled (adjust K (T (initial_values K (adjust K (T (initial_values K c))))))
        = backtrace_enabled (adjust K (T (initial_values K c)))"
      using setter_config_D [OF T, of p_backtrace_enabled]
      by (elim disjE) (simp_all add: simps)
    show "backtrace_enable_on_signal (adjust K (T (initial_values K (adjust K (T (initial_values K c))))))
        = backtrace_enable_on_signal (adjust K (T (initial_values K c)))"
      using setter_config_D [OF T, of p_backtrace_enable_on_signal]
      by (elim disjE) (simp_all add: simps)
    show "backtrace_signal (adjust K (T (initial_values K (adjust K (T (initial_values K c))))))
        = backtrace_signal (adjust K (T (initial_values K c)))"
      by (simp add: simps)
    show "backtrace_frames (adjust K (T (initial_values K (adjust K (T (initial_values K c))))))
        = backtrace_frames (adjust K (T (initial_values K c)))"
      using setter_value_D [OF T, of p_backtrace_frames]
      by (elim disjE exE) (simp_all add: simps)
    show "fill_on_alloc_bytes (adjust K (T (initial_values K (adjust K (T (initial_values K c))))))
        = fill_on_alloc_bytes (adjust K (T (initial_values K c)))"
      using setter_value_D [OF T, of p_fill_on_alloc_bytes]
      by (elim disjE exE) (simp_all add: simps)
    show "fill_on_free_bytes (adjust K (T (initial_values K (adjust K (T (initial_values K c))))))
        = fill_on_free_bytes (adjust K (T (initial_values K c)))"
      using setter_value_D [OF T, of p_fill_on_free_bytes]
      by (elim disjE exE) (simp_all add: simps)
    show "expand_alloc_bytes (adjust K (T (initial_values K (adjust K (T (initial_values K c))))))
        = expand_alloc_bytes (adjust K (T (initial_values K c)))"
      using setter_value_D [OF T, of p_expand_alloc_bytes]
      by (elim disjE exE) (simp_all add: simps)
    show "free_track_allocations (adjust K (T (initial_values K (adjust K (T (initial_values K c))))))
        = free_track_allocations (adjust K (T (initial_values K c)))"
      using setter_value_D [OF T, of p_free_track_allocations]
      by (elim disjE exE) (simp_all add: simps)
    show "free_track_backtrace_num_frames (adjust K (T (initial_values K (adjust K (T (initial_values K c))))))
        = free_track_backtrace_num_frames (adjust K (T (initial_values K c)))"
      using setter_value_D [OF T, of p_free_track_backtrace_num_frames]
      by (elim disjE exE) (simp_all add: simps)
    show "fill_alloc_value (adjust K (T (initial_values K (adjust K (T (initial_values K c))))))
        = fill_alloc_value (adjust K (T (initial_values K c)))"
      by (simp add: simps)
    show "fill_free_value (adjust K (T (initial_values K (adjust K (T (initial_values K c))))))
        = fill_free_value (adjust K (T (initial_values K c)))"
      by (simp add: simps)
    show "front_guard_value (adjust K (T (initial_values K (adjust K (T (initial_values K c))))))
        = front_guard_value (adjust K (T (initial_values K c)))"
      by (simp add: simps)
    show "rear_guard_value (adjust K (T (initial_values K (adjust K (T (initial_values K c))))))
        = rear_guard_value (adjust K (T (initial_values K c)))"
      by (simp add: simps)
    show "Config.more (adjust K (T (initial_values K (adjust K (T (initial_values K c))))))
        = Config.more (adjust K (T (initial_values K c)))"
      by simp
  qed
qed

lemma setter_twice_invalid:
  fixes T :: "'a::len Config \<Rightarrow> 'a Config"
  assumes T: "setter T"
  shows "T (initial_values K (T (initial_values K c)))
      = T (initial_values K c)"
proof -
  obtain m where m: "\<And>d. options (T d) = options d OR m"
    using setter_options_D [OF T] by blast
  note simps = adjust_fields initial_values_fields m setter_others_D [OF T] BIONIC_ALIGN_idem
    SIZE_MAX_nonzero
  show ?thesis
  proof (rule Config.equality)
    show "options (T (initial_values K (T (initial_values K c))))
        = options (T (initial_values K c))"
      by (simp add: simps)
    show "front_guard_bytes (T (initial_values K (T (initial_values K c))))
        = front_guard_bytes (T (initial_values K c))"
      using setter_value_D [OF T, of p_front_guard_bytes]
      by (elim disjE exE) (simp_all add: simps)
    show "rear_guard_bytes (T (initial_values K (T (initial_values K c))))
        = rear_guard_bytes (T (initial_values K c))"
      using setter_value_D [OF T, of p_rear_guard_bytes]
      by (elim disjE exE) (simp_all add: simps)
    show "backtrace_enabled (T (initial_values K (T (initial_values K c))))
        = backtrace_enabled (T (initial_values K c))"
      using setter_config_D [OF T, of p_backtrace_enabled]
      by (elim disjE) (simp_all add: simps)
    show "backtrace_enable_on_signal (T (initial_values K (T (initial_values K c))))
        = backtrace_enable_on_signal (T (initial_values K c))"
      using setter_config_D [OF T, of p_backtrace_enable_on_signal]
      by (elim disjE) (simp_all add: simps)
    show "backtrace_signal (T (initial_values K (T (initial_values K c))))
        = backtrace_signal (T (initial_values K c))"
      by (simp add: simps)
    show "backtrace_frames (T (initial_values K (T (initial_values K c))))
        = backtrace_frames (T (initial_values K c))"
      using setter_value_D [OF T, of p_backtrace_frames]
      by (elim disjE exE) (simp_all add: simps)
    show "fill_on_alloc_bytes (T (initial_values K (T (initial_values K c))))
        = fill_on_alloc_bytes (T (initial_values K c))"
      using setter_value_D [OF T, of p_fill_on_alloc_bytes]
      by (elim disjE exE) (simp_all add: simps)
    show "fill_on_free_bytes (T (initial_values K (T (initial_values K c))))
        = fill_on_free_bytes (T (initial_values K c))"
      using setter_value_D [OF T, of p_fill_on_free_bytes]
      by (elim disjE exE) (simp_all add: simps)
    show "expand_alloc_bytes (T (initial_values K (T (initial_values K c))))
        = expand_alloc_bytes (T (initial_values K c))"
      using setter_value_D [OF T, of p_expand_alloc_bytes]
      by (elim disjE exE) (simp_all add: simps)
    show "free_track_allocations (T (initial_values K (T (initial_values K c))))
        = free_track_allocations (T (initial_values K c))"
      using setter_value_D [OF T, of p_free_track_allocations]
      by (elim disjE exE) (simp_all add: simps)
    show "free_track_backtrace_num_frames (T (initial_values K (T (initial_values K c))))
        = free_track_backtrace_num_frames (T (initial_values K c))"
      using setter_value_D [OF T, of p_free_track_backtrace_num_frames]
      by (elim disjE exE) (simp_all add: simps)
    show "fill_alloc_value (T (initial_values K (T (initial_values K c))))
        = fill_alloc_value (T (initial_values K c))"
      by (simp add: simps)
    show "fill_free_value (T (initial_values K (T (initial_values K c))))
        = fill_free_value (T (initial_values K c))"
      by (simp add: simps)
    show "front_guard_value (T (initial_values K (T (initial_values K c))))
        = front_guard_value (T (initial_values K c))"
      by (simp add: simps)
    show "rear_guard_value (T (initial_values K (T (initial_values K c))))
        = rear_guard_value (T (initial_values K c))"
      by (simp add: simps)
    show "Config.more (T (initial_values K (T (initial_values K c))))
        = Config.more (T (initial_values K c))"
      by simp
  qed
qed

text \<open>
  C8. \<^verbatim>\<open>SetFromProperties\<close> run on the Config that a first run on the same property string
  has left gives the same result as the first run: the same return value, the same Config
  in every field and the same messages. This holds for every property string, every
  choice of the constants and every Config the first run starts from, also when the run
  fails and leaves the fields of the tokens before the error written.
\<close>

theorem build_twice_same:
  "SetFromProperties K s (fst (snd (SetFromProperties K s this))) = SetFromProperties K s this"
proof (cases "strlen s = 0")
  case True
  then show ?thesis
    by (simp add: SetFromProperties_def)
next
  case False
  obtain valid p' msgs T where T: "setter T"
    and w: "\<And>c. while_loop (features K) \<lparr>cur = s, done = False\<rparr> ([], 0, False) False c
        = (valid, p', T c, msgs)"
    using while_loop_setter [of "features K" "\<lparr>cur = s, done = False\<rparr>" "([], 0, False)" False]
    by blast
  have r: "SetFromProperties K s c =
      (if valid \<and> done p' then (True, adjust K (T (initial_values K c)), msgs)
       else (False, T (initial_values K c), msgs @ [Usage]))" for c
    using False by (simp add: SetFromProperties_def w)
  show ?thesis
  proof (cases "valid \<and> done p'")
    case True
    then show ?thesis
      using setter_twice_valid [OF T, of K this] by (simp add: r)
  next
    case False
    then show ?thesis
      using setter_twice_invalid [OF T, of K this] by (auto simp: r)
  qed
qed

section \<open>The tokens of a property string and the last write to a field\<close>

lemma tokens_Get_False: "Get p out = (False, p', out', msgs) \<Longrightarrow> tokens p out = []"
  by (subst tokens.simps) simp

lemma tokens_Get_True: "Get p out = (True, p', out', msgs) \<Longrightarrow> tokens p out = out' # tokens p' out'"
  by (subst tokens.simps) simp

lemma feature_loop_backtrace:
  assumes "feature_loop property (features K) val vs found c = (True, found', c', msgs)"
  shows "backtrace_frames c' =
      (if property = ''backtrace'' \<or> property = ''backtrace_enable_on_signal''
       then (if vs then val else 16) else backtrace_frames c)"
    and "backtrace_enabled c' = (backtrace_enabled c \<or> property = ''backtrace'')"
    and "backtrace_enable_on_signal c' =
      (backtrace_enable_on_signal c \<or> property = ''backtrace_enable_on_signal'')"
  using assms
  by (auto simp: features_def mkFeature_def SetFeature_def Let_def split: if_splits)

lemma while_loop_valid_step:
  assumes w: "while_loop fs p out found c = (True, p', c', msgs)"
    and g: "Get p out = (True, p1, (property, val, vs), m1)"
  obtains c1 m2 m3 where "feature_loop property fs val vs found c = (True, True, c1, m2)"
    and "while_loop fs p1 (property, val, vs) True c1 = (True, p', c', m3)"
proof -
  obtain valid found' c1 m2 where fl:
    "feature_loop property fs val vs found c = (valid, found', c1, m2)"
    by (cases "feature_loop property fs val vs found c") auto
  have valid: "valid"
    using while_loop_feature_False [OF g, of fs found c found' c1 m2] fl w
    by (cases valid) auto
  have found': "found'"
    using while_loop_unknown [OF g, of fs found c c1 m2] fl valid w
    by (cases found') auto
  have fl': "feature_loop property fs val vs found c = (True, True, c1, m2)"
    using fl valid found' by simp
  obtain m3 where "while_loop fs p1 (property, val, vs) True c1 = (True, p', c', m3)"
    using while_loop_next [OF g fl'] w
    by (cases "while_loop fs p1 (property, val, vs) True c1") auto
  with fl' that show ?thesis
    by blast
qed

lemma while_loop_last_written:
  assumes step: "\<And>property val vs found c found' c' msgs.
      feature_loop property fs val vs found c = (True, found', c', msgs) \<Longrightarrow>
      fld c' = last_written names dflt (property, val, vs) (fld c)"
    and w: "while_loop fs p out found c = (True, p', c', msgs)"
  shows "fld c' = fold (last_written names dflt) (tokens p out) (fld c)"
  using w
proof (induction "length (cur p)" arbitrary: p out found c msgs rule: less_induct)
  case less
  obtain ok p1 property val vs m1 where g: "Get p out = (ok, p1, (property, val, vs), m1)"
    by (cases "Get p out") auto
  show ?case
  proof (cases ok)
    case False
    with g have g': "Get p out = (False, p1, (property, val, vs), m1)"
      by simp
    have "c' = c"
      using while_loop_Get_False [OF g', of fs found c] less.prems by simp
    then show ?thesis
      by (simp add: tokens_Get_False [OF g'])
  next
    case True
    with g have g': "Get p out = (True, p1, (property, val, vs), m1)"
      by simp
    from less.prems g' obtain c1 m2 m3
      where fl: "feature_loop property fs val vs found c = (True, True, c1, m2)"
        and w2: "while_loop fs p1 (property, val, vs) True c1 = (True, p', c', m3)"
      by (rule while_loop_valid_step)
    have "length (cur p1) < length (cur p)"
      using g' by (rule Get_shorter)
    then have "fld c' = fold (last_written names dflt) (tokens p1 (property, val, vs)) (fld c1)"
      using w2 by (rule less.hyps)
    then show ?thesis
      by (simp add: tokens_Get_True [OF g'] step [OF fl])
  qed
qed

lemma while_loop_backtrace_flags:
  assumes "while_loop (features K) p out found c = (True, p', c', msgs)"
  shows "backtrace_enabled c' = (backtrace_enabled c \<or> ''backtrace'' \<in> fst ` set (tokens p out))
    \<and> backtrace_enable_on_signal c' =
        (backtrace_enable_on_signal c \<or> ''backtrace_enable_on_signal'' \<in> fst ` set (tokens p out))"
  using assms
proof (induction "length (cur p)" arbitrary: p out found c msgs rule: less_induct)
  case less
  obtain ok p1 property val vs m1 where g: "Get p out = (ok, p1, (property, val, vs), m1)"
    by (cases "Get p out") auto
  show ?case
  proof (cases ok)
    case False
    with g have g': "Get p out = (False, p1, (property, val, vs), m1)"
      by simp
    have "c' = c"
      using while_loop_Get_False [OF g', of "features K" found c] less.prems by simp
    then show ?thesis
      by (simp add: tokens_Get_False [OF g'])
  next
    case True
    with g have g': "Get p out = (True, p1, (property, val, vs), m1)"
      by simp
    from less.prems g' obtain c1 m2 m3
      where fl: "feature_loop property (features K) val vs found c = (True, True, c1, m2)"
        and w2: "while_loop (features K) p1 (property, val, vs) True c1 = (True, p', c', m3)"
      by (rule while_loop_valid_step)
    have "length (cur p1) < length (cur p)"
      using g' by (rule Get_shorter)
    from less.hyps [OF this w2] feature_loop_backtrace(2,3) [OF fl]
    show ?thesis
      by (auto simp: tokens_Get_True [OF g'])
  qed
qed

lemma fold_last_written:
  assumes "filter (\<lambda>t. fst t \<in> names) ts = front @ [(nm, v, True)]"
  shows "fold (last_written names dflt) ts d = v"
  using assms
proof (induction ts arbitrary: front rule: rev_induct)
  case Nil
  then show ?case by simp
next
  case (snoc t ts)
  show ?case
  proof (cases "fst t \<in> names")
    case True
    with snoc.prems have "t = (nm, v, True)"
      by simp
    then have "last_written names dflt t (fold (last_written names dflt) ts d) = v"
      using True by (simp add: last_written_def)
    then show ?thesis
      by simp
  next
    case False
    with snoc.prems have "filter (\<lambda>t. fst t \<in> names) ts = front @ [(nm, v, True)]"
      by simp
    then have "fold (last_written names dflt) ts d = v"
      by (rule snoc.IH)
    moreover have "last_written names dflt t v = v"
      using False by (simp add: last_written_def)
    ultimately show ?thesis
      by simp
  qed
qed

text \<open>
  C9. The table entries \<^verbatim>\<open>backtrace\<close> and \<^verbatim>\<open>backtrace_enable_on_signal\<close> have the same
  numeric slot, \<^verbatim>\<open>backtrace_frames\<close>, and different boolean slots. Whenever the build
  on a property string succeeds and the last token named \<^verbatim>\<open>backtrace\<close> or
  \<^verbatim>\<open>backtrace_enable_on_signal\<close> carries a value \<open>v\<close>, the final \<^verbatim>\<open>backtrace_frames\<close>
  is \<open>v\<close>, whatever the tokens before it were; \<^verbatim>\<open>backtrace_enabled\<close> is true exactly
  when it was true before or some token is named \<^verbatim>\<open>backtrace\<close>, and
  \<^verbatim>\<open>backtrace_enable_on_signal\<close> likewise for its own option.
\<close>

theorem backtrace_options_share_frames:
  assumes ok: "SetFromProperties K s this = (True, this', msgs)"
    and ts: "ts = tokens \<lparr>cur = s, done = False\<rparr> ([], 0, False)"
    and last: "filter (\<lambda>t. fst t \<in> {''backtrace'', ''backtrace_enable_on_signal''}) ts
      = front @ [(nm, v, True)]"
  shows "backtrace_frames this' = v
    \<and> backtrace_enabled this' = (backtrace_enabled this \<or> ''backtrace'' \<in> fst ` set ts)
    \<and> backtrace_enable_on_signal this' =
        (backtrace_enable_on_signal this \<or> ''backtrace_enable_on_signal'' \<in> fst ` set ts)
    \<and> name (features K ! 3) = ''backtrace''
    \<and> name (features K ! 4) = ''backtrace_enable_on_signal''
    \<and> value (features K ! 3) = Some p_backtrace_frames
    \<and> value (features K ! 4) = Some p_backtrace_frames
    \<and> config (features K ! 3) = Some p_backtrace_enabled
    \<and> config (features K ! 4) = Some p_backtrace_enable_on_signal"
proof -
  have len: "strlen s \<noteq> 0"
    using ok by (auto simp: SetFromProperties_def split: if_splits)
  obtain valid p' c' m where w: "while_loop (features K) \<lparr>cur = s, done = False\<rparr> ([], 0, False) False
      (initial_values K this) = (valid, p', c', m)"
    by (cases "while_loop (features K) \<lparr>cur = s, done = False\<rparr> ([], 0, False) False
      (initial_values K this)") auto
  from ok len w have valid: "valid" and this': "this' = adjust K c'"
    by (auto simp: SetFromProperties_def Let_def split: if_splits)
  from w valid have w': "while_loop (features K) \<lparr>cur = s, done = False\<rparr> ([], 0, False) False
      (initial_values K this) = (True, p', c', m)"
    by simp
  note b = while_loop_backtrace_flags [OF w', folded ts]
  have "backtrace_frames c' = fold (last_written {''backtrace'', ''backtrace_enable_on_signal''} 16) ts
      (backtrace_frames (initial_values K this))"
    unfolding ts
  proof (rule while_loop_last_written [OF _ w'])
    fix property and val :: "'a word" and vs found c found' c' msgs
    assume "feature_loop property (features K) val vs found c = (True, found', c', msgs)"
    then have "backtrace_frames c' =
      (if property = ''backtrace'' \<or> property = ''backtrace_enable_on_signal''
       then (if vs then val else 16) else backtrace_frames c)"
      by (rule feature_loop_backtrace(1))
    then show "backtrace_frames c' =
        last_written {''backtrace'', ''backtrace_enable_on_signal''} 16 (property, val, vs) (backtrace_frames c)"
      by (simp add: last_written_def)
  qed
  then have "backtrace_frames this' = v"
    using fold_last_written [OF last] by (simp add: this' adjust_fields)
  moreover have "backtrace_enabled this' = (backtrace_enabled this \<or> ''backtrace'' \<in> fst ` set ts)"
    using b by (simp add: this' adjust_fields initial_values_fields)
  moreover have "backtrace_enable_on_signal this' =
        (backtrace_enable_on_signal this \<or> ''backtrace_enable_on_signal'' \<in> fst ` set ts)"
    using b by (simp add: this' adjust_fields initial_values_fields)
  ultimately show ?thesis
    by (simp add: features_def mkFeature_def)
qed

theorem backtrace_options_share_frames_witness:
  "backtrace_frames (fst (snd (SetFromProperties lp64 ''backtrace=5 backtrace_enable_on_signal=7'' zero_Config))) = 7
   \<and> backtrace_frames (fst (snd (SetFromProperties lp64 ''backtrace_enable_on_signal=7 backtrace=5'' zero_Config))) = 5
   \<and> backtrace_enabled (fst (snd (SetFromProperties lp64 ''backtrace=5 backtrace_enable_on_signal=7'' zero_Config)))
   \<and> backtrace_enable_on_signal (fst (snd (SetFromProperties lp64 ''backtrace=5 backtrace_enable_on_signal=7'' zero_Config)))"
proof -
  define r1 where "r1 = SetFromProperties lp64 ''backtrace=5 backtrace_enable_on_signal=7'' zero_Config"
  define r2 where "r2 = SetFromProperties lp64 ''backtrace_enable_on_signal=7 backtrace=5'' zero_Config"
  have ok1: "SetFromProperties lp64 ''backtrace=5 backtrace_enable_on_signal=7'' zero_Config
      = (True, fst (snd r1), [])"
    unfolding r1_def by (simp add: eval_defs lp64_def zero_Config_def)
  have ok2: "SetFromProperties lp64 ''backtrace_enable_on_signal=7 backtrace=5'' zero_Config
      = (True, fst (snd r2), [])"
    unfolding r2_def by (simp add: eval_defs lp64_def zero_Config_def)
  have t1: "tokens \<lparr>cur = ''backtrace=5 backtrace_enable_on_signal=7'', done = False\<rparr> ([], 0 :: 64 word, False)
      = [(''backtrace'', 5, True), (''backtrace_enable_on_signal'', 7, True)]"
    by (simp add: tokens.simps eval_defs)
  have t2: "tokens \<lparr>cur = ''backtrace_enable_on_signal=7 backtrace=5'', done = False\<rparr> ([], 0 :: 64 word, False)
      = [(''backtrace_enable_on_signal'', 7, True), (''backtrace'', 5, True)]"
    by (simp add: tokens.simps eval_defs)
  have l1: "filter (\<lambda>t. fst t \<in> {''backtrace'', ''backtrace_enable_on_signal''})
      [(''backtrace'', 5 :: 64 word, True), (''backtrace_enable_on_signal'', 7, True)]
      = [(''backtrace'', 5, True)] @ [(''backtrace_enable_on_signal'', 7, True)]"
    by simp
  have l2: "filter (\<lambda>t. fst t \<in> {''backtrace'', ''backtrace_enable_on_signal''})
      [(''backtrace_enable_on_signal'', 7 :: 64 word, True), (''backtrace'', 5, True)]
      = [(''backtrace_enable_on_signal'', 7, True)] @ [(''backtrace'', 5, True)]"
    by simp
  from backtrace_options_share_frames [OF ok1 t1 [symmetric] l1]
    backtrace_options_share_frames [OF ok2 t2 [symmetric] l2]
  show ?thesis
    by (simp add: r1_def r2_def)
qed

section \<open>No value above LONG_MAX is stored\<close>

lemma Get_value_set_nonneg:
  fixes val :: "'a::len word"
  assumes "Get p out = (True, p', (property, val, True), msgs)"
  shows "0 \<le> sint val"
  using assms
  by (cases out) (auto simp: Get_def Let_def split: if_splits prod.splits)

lemma sint_nonneg_unat:
  fixes val :: "'a::len word"
  assumes "0 \<le> sint val"
  shows "int (unat val) \<le> 2 ^ (LENGTH('a) - 1) - 1" and "val \<noteq> SIZE_MAX"
proof -
  have lt: "sint val < 2 ^ (LENGTH('a) - 1)"
    by (rule sint_lt)
  have "(2::int) ^ (LENGTH('a) - 1) \<le> 2 ^ LENGTH('a)"
    by (rule power_increasing) simp_all
  with lt have "sint val < 2 ^ LENGTH('a)"
    by linarith
  then have "uint val = sint val"
    using assms by (simp add: uint_sint take_bit_int_eq_self)
  with lt show "int (unat val) \<le> 2 ^ (LENGTH('a) - 1) - 1"
    by simp
  show "val \<noteq> SIZE_MAX"
    using assms by (auto simp: SIZE_MAX_def)
qed

lemma feature_loop_fill:
  assumes nz: "nonzero_bits K"
    and fl: "feature_loop property (features K) val vs found c = (True, found', c', msgs)"
  shows "fill_on_alloc_bytes c' =
      (if property = ''fill'' \<or> property = ''fill_on_alloc''
       then (if vs then val else SIZE_MAX) else fill_on_alloc_bytes c)"
    and "fill_on_free_bytes c' =
      (if property = ''fill'' \<or> property = ''fill_on_free''
       then (if vs then val else SIZE_MAX) else fill_on_free_bytes c)"
    and "(property = ''fill'' \<or> property = ''fill_on_free'') \<and> vs \<longrightarrow> \<not> val < 1"
  using fl nz
  by (auto simp: features_def mkFeature_def SetFeature_def Let_def nonzero_bits_def split: if_splits)

lemma while_loop_tokens_all:
  assumes step: "\<And>property val vs found c found' c' msgs.
      feature_loop property fs val vs found c = (True, found', c', msgs) \<Longrightarrow> Q (property, val, vs)"
    and w: "while_loop fs p out found c = (True, p', c', msgs)"
  shows "\<forall>t\<in>set (tokens p out). Q t"
  using w
proof (induction "length (cur p)" arbitrary: p out found c msgs rule: less_induct)
  case less
  obtain ok p1 property val vs m1 where g: "Get p out = (ok, p1, (property, val, vs), m1)"
    by (cases "Get p out") auto
  show ?case
  proof (cases ok)
    case False
    with g have g': "Get p out = (False, p1, (property, val, vs), m1)"
      by simp
    then show ?thesis
      by (simp add: tokens_Get_False [OF g'])
  next
    case True
    with g have g': "Get p out = (True, p1, (property, val, vs), m1)"
      by simp
    from less.prems g' obtain c1 m2 m3
      where fl: "feature_loop property fs val vs found c = (True, True, c1, m2)"
        and w2: "while_loop fs p1 (property, val, vs) True c1 = (True, p', c', m3)"
      by (rule while_loop_valid_step)
    have "length (cur p1) < length (cur p)"
      using g' by (rule Get_shorter)
    then have "\<forall>t\<in>set (tokens p1 (property, val, vs)). Q t"
      using w2 by (rule less.hyps)
    then show ?thesis
      by (simp add: tokens_Get_True [OF g'] step [OF fl])
  qed
qed

lemma tokens_value_nonneg:
  "\<forall>t\<in>set (tokens p out). snd (snd t) \<longrightarrow> 0 \<le> sint (fst (snd t))"
proof (induction "length (cur p)" arbitrary: p out rule: less_induct)
  case less
  obtain ok p1 property val vs m1 where g: "Get p out = (ok, p1, (property, val, vs), m1)"
    by (cases "Get p out") auto
  show ?case
  proof (cases ok)
    case False
    with g have g': "Get p out = (False, p1, (property, val, vs), m1)"
      by simp
    then show ?thesis
      by (simp add: tokens_Get_False [OF g'])
  next
    case True
    with g have g': "Get p out = (True, p1, (property, val, vs), m1)"
      by simp
    have "length (cur p1) < length (cur p)"
      using g' by (rule Get_shorter)
    then have "\<forall>t\<in>set (tokens p1 (property, val, vs)). snd (snd t) \<longrightarrow> 0 \<le> sint (fst (snd t))"
      by (rule less.hyps)
    moreover have "vs \<longrightarrow> 0 \<le> sint val"
    proof
      assume vs
      with g' have "Get p out = (True, p1, (property, val, True), m1)"
        by simp
      then show "0 \<le> sint val"
        by (rule Get_value_set_nonneg)
    qed
    ultimately show ?thesis
      by (simp add: tokens_Get_True [OF g'])
  qed
qed

lemma filter_last_in_set: "filter P ts = front @ [t] \<Longrightarrow> t \<in> set ts"
proof -
  assume "filter P ts = front @ [t]"
  then have "t \<in> set (filter P ts)"
    by simp
  then show ?thesis
    by simp
qed

text \<open>
  C10. A token name=V whose digits (with no sign or the sign \<^verbatim>\<open>+\<close>) denote a number above
  \<^verbatim>\<open>LONG_MAX\<close> makes \<^verbatim>\<open>Get\<close> return false with the message of the \<^verbatim>\<open>errno\<close> branch,
  whatever the name is, and the build return false. Every token of a property string that
  carries a value carries one of at most \<^verbatim>\<open>LONG_MAX\<close>. So after a successful build in
  which the last token named \<^verbatim>\<open>fill\<close> or \<^verbatim>\<open>fill_on_alloc\<close> carries a value,
  \<^verbatim>\<open>fill_on_alloc_bytes\<close> is that value, at most \<^verbatim>\<open>LONG_MAX\<close> and not \<^verbatim>\<open>SIZE_MAX\<close>,
  and likewise \<^verbatim>\<open>fill_on_free_bytes\<close> for \<^verbatim>\<open>fill\<close> and \<^verbatim>\<open>fill_on_free\<close>, although the
  maximum the table declares for the three options is \<^verbatim>\<open>SIZE_MAX\<close>: the fields hold
  \<^verbatim>\<open>SIZE_MAX\<close> only when the last such token has no value. The option bits are taken to
  be non-zero.
\<close>

theorem value_above_LONG_MAX_rejected:
  fixes K :: "'a::len constants"
  assumes nz: "nonzero_bits K"
    and at: "loop_at n (features K) \<lparr>cur = s, done = False\<rparr> ([], 0, False) False (initial_values K this0)
        = Some (p, out, found, thisn)"
    and shape: "cur p = ws @ nm @ ws2 @ CHR ''='' # ws3 @ sg @ ds @ rest"
    and ws: "\<forall>c\<in>set ws. isspace c" and nm: "\<forall>c\<in>set nm. name_char c"
    and ws2: "\<forall>c\<in>set ws2. isspace c" and ws3: "\<forall>c\<in>set ws3. isspace c"
    and sg: "sg = [] \<or> sg = ''+''"
    and ds: "\<forall>c\<in>set ds. isdigit c" and rest: "rest = [] \<or> \<not> isdigit (hd rest)"
    and big: "digits_value 0 ds > 2 ^ (LENGTH('a) - 1) - 1"
    and ok: "SetFromProperties K s2 this = (True, this', msgs)"
    and ts: "ts = tokens \<lparr>cur = s2, done = False\<rparr> ([], 0, False)"
  shows "Get p out = (False, p\<lparr>cur := ws3 @ sg @ ds @ rest\<rparr>, (nm, fst (snd out), True), [BadValueErrno nm])
    \<and> fst (SetFromProperties K s this0) = False
    \<and> (\<forall>t\<in>set ts. snd (snd t) \<longrightarrow> int (unat (fst (snd t))) \<le> 2 ^ (LENGTH('a) - 1) - 1)
    \<and> (filter (\<lambda>t. fst t \<in> {''fill'', ''fill_on_alloc''}) ts = frontA @ [(nmA, vA, True)] \<longrightarrow>
         fill_on_alloc_bytes this' = vA \<and> int (unat (fill_on_alloc_bytes this')) \<le> 2 ^ (LENGTH('a) - 1) - 1
         \<and> fill_on_alloc_bytes this' \<noteq> SIZE_MAX)
    \<and> (filter (\<lambda>t. fst t \<in> {''fill'', ''fill_on_free''}) ts = frontF @ [(nmF, vF, True)] \<longrightarrow>
         fill_on_free_bytes this' = vF \<and> int (unat (fill_on_free_bytes this')) \<le> 2 ^ (LENGTH('a) - 1) - 1
         \<and> fill_on_free_bytes this' \<noteq> SIZE_MAX)
    \<and> max_value (features K ! 5) = SIZE_MAX \<and> max_value (features K ! 6) = SIZE_MAX
    \<and> max_value (features K ! 7) = SIZE_MAX
    \<and> int (unat (SIZE_MAX :: 'a word)) = 2 ^ LENGTH('a) - 1"
proof -
  have ds_ne: "ds \<noteq> []"
  proof
    assume "ds = []"
    with big have "(2::int) ^ (LENGTH('a) - 1) - 1 < 0"
      by simp
    moreover have "(1::int) \<le> 2 ^ (LENGTH('a) - 1)"
      by simp
    ultimately show False
      by linarith
  qed
  have sg': "sg = [] \<or> sg = ''+'' \<or> sg = ''-''"
    using sg by blast
  have nd: "ds = [] \<and> sg = [] \<longrightarrow>
      rest = [] \<or> (\<not> isspace (hd rest) \<and> hd rest \<noteq> CHR ''+'' \<and> hd rest \<noteq> CHR ''-'')"
    using ds_ne by simp
  have acc: "digits_value 0 ds = (if sg = ''-'' then - digits_value 0 ds else digits_value 0 ds)"
    using sg by auto
  note gn = Get_number_form [OF shape ws nm ws2 ws3 sg' ds rest nd acc refl, of out]
  have a: "Get p out = (False, p\<lparr>cur := ws3 @ sg @ ds @ rest\<rparr>, (nm, fst (snd out), True), [BadValueErrno nm])"
    unfolding gn using ds_ne big by simp
  have "done p = False"
    using loop_at_done [OF at] by simp
  then have nd': "\<not> done (p\<lparr>cur := ws3 @ sg @ ds @ rest\<rparr>)"
    by simp
  have w0: "while_loop (features K) p out found thisn
      = (True, p\<lparr>cur := ws3 @ sg @ ds @ rest\<rparr>, thisn, [BadValueErrno nm])"
    using while_loop_Get_False [OF a] .
  have len: "strlen s \<noteq> 0"
    using loop_at_strlen [OF at] a nd' by simp
  from build_fails_at [OF at w0 _ len] nd' have b: "fst (SetFromProperties K s this0) = False"
    by auto
  have c: "\<forall>t\<in>set ts. snd (snd t) \<longrightarrow> int (unat (fst (snd t))) \<le> 2 ^ (LENGTH('a) - 1) - 1"
    unfolding ts using tokens_value_nonneg sint_nonneg_unat(1) by blast
  have len2: "strlen s2 \<noteq> 0"
    using ok by (auto simp: SetFromProperties_def split: if_splits)
  obtain valid p' c' m where w: "while_loop (features K) \<lparr>cur = s2, done = False\<rparr> ([], 0, False) False
      (initial_values K this) = (valid, p', c', m)"
    by (cases "while_loop (features K) \<lparr>cur = s2, done = False\<rparr> ([], 0, False) False
      (initial_values K this)") auto
  from ok len2 w have valid: "valid" and this': "this' = adjust K c'"
    by (auto simp: SetFromProperties_def Let_def split: if_splits)
  from w valid have w': "while_loop (features K) \<lparr>cur = s2, done = False\<rparr> ([], 0, False) False
      (initial_values K this) = (True, p', c', m)"
    by simp
  have fa: "fill_on_alloc_bytes c' = fold (last_written {''fill'', ''fill_on_alloc''} SIZE_MAX) ts
      (fill_on_alloc_bytes (initial_values K this))"
    unfolding ts
  proof (rule while_loop_last_written [OF _ w'])
    fix property and val :: "'a word" and vs found c found' c' msgs
    assume "feature_loop property (features K) val vs found c = (True, found', c', msgs)"
    then have "fill_on_alloc_bytes c' =
      (if property = ''fill'' \<or> property = ''fill_on_alloc''
       then (if vs then val else SIZE_MAX) else fill_on_alloc_bytes c)"
      by (rule feature_loop_fill(1) [OF nz])
    then show "fill_on_alloc_bytes c' =
        last_written {''fill'', ''fill_on_alloc''} SIZE_MAX (property, val, vs) (fill_on_alloc_bytes c)"
      by (simp add: last_written_def)
  qed
  have ff: "fill_on_free_bytes c' = fold (last_written {''fill'', ''fill_on_free''} SIZE_MAX) ts
      (fill_on_free_bytes (initial_values K this))"
    unfolding ts
  proof (rule while_loop_last_written [OF _ w'])
    fix property and val :: "'a word" and vs found c found' c' msgs
    assume "feature_loop property (features K) val vs found c = (True, found', c', msgs)"
    then have "fill_on_free_bytes c' =
      (if property = ''fill'' \<or> property = ''fill_on_free''
       then (if vs then val else SIZE_MAX) else fill_on_free_bytes c)"
      by (rule feature_loop_fill(2) [OF nz])
    then show "fill_on_free_bytes c' =
        last_written {''fill'', ''fill_on_free''} SIZE_MAX (property, val, vs) (fill_on_free_bytes c)"
      by (simp add: last_written_def)
  qed
  have q: "\<forall>t\<in>set ts. (fst t = ''fill'' \<or> fst t = ''fill_on_free'') \<and> snd (snd t) \<longrightarrow> \<not> fst (snd t) < 1"
    unfolding ts
  proof (rule while_loop_tokens_all [OF _ w'])
    fix property and val :: "'a word" and vs found c found' c' msgs
    assume "feature_loop property (features K) val vs found c = (True, found', c', msgs)"
    then have "(property = ''fill'' \<or> property = ''fill_on_free'') \<and> vs \<longrightarrow> \<not> val < 1"
      by (rule feature_loop_fill(3) [OF nz])
    then show "(fst (property, val, vs) = ''fill'' \<or> fst (property, val, vs) = ''fill_on_free'')
        \<and> snd (snd (property, val, vs)) \<longrightarrow> \<not> fst (snd (property, val, vs)) < 1"
      by simp
  qed
  have d: "fill_on_alloc_bytes this' = vA \<and> int (unat (fill_on_alloc_bytes this')) \<le> 2 ^ (LENGTH('a) - 1) - 1
         \<and> fill_on_alloc_bytes this' \<noteq> SIZE_MAX"
    if l: "filter (\<lambda>t. fst t \<in> {''fill'', ''fill_on_alloc''}) ts = frontA @ [(nmA, vA, True)]"
  proof -
    have v: "fill_on_alloc_bytes this' = vA"
      using fa fold_last_written [OF l] by (simp add: this' adjust_fields)
    have "(nmA, vA, True) \<in> set ts"
      using l by (rule filter_last_in_set)
    then have "0 \<le> sint vA"
      using tokens_value_nonneg [of "\<lparr>cur = s2, done = False\<rparr>" "([], 0, False)"] ts by fastforce
    then show ?thesis
      using v sint_nonneg_unat [of vA] by simp
  qed
  have e: "fill_on_free_bytes this' = vF \<and> int (unat (fill_on_free_bytes this')) \<le> 2 ^ (LENGTH('a) - 1) - 1
         \<and> fill_on_free_bytes this' \<noteq> SIZE_MAX"
    if l: "filter (\<lambda>t. fst t \<in> {''fill'', ''fill_on_free''}) ts = frontF @ [(nmF, vF, True)]"
  proof -
    have v: "fill_on_free_bytes c' = vF"
      using ff fold_last_written [OF l] by simp
    have mem: "(nmF, vF, True) \<in> set ts"
      using l by (rule filter_last_in_set)
    have "(nmF, vF, True) \<in> set (filter (\<lambda>t. fst t \<in> {''fill'', ''fill_on_free''}) ts)"
      using l by simp
    then have "nmF = ''fill'' \<or> nmF = ''fill_on_free''"
      by simp
    with q mem have "\<not> vF < 1"
      by fastforce
    then have "vF \<noteq> 0"
      by auto
    then have v': "fill_on_free_bytes this' = vF"
      using v by (simp add: this' adjust_fields)
    have "0 \<le> sint vF"
      using tokens_value_nonneg [of "\<lparr>cur = s2, done = False\<rparr>" "([], 0, False)"] ts mem by fastforce
    then show ?thesis
      using v' sint_nonneg_unat [of vF] by simp
  qed
  have f: "max_value (features K ! 5) = SIZE_MAX \<and> max_value (features K ! 6) = SIZE_MAX
    \<and> max_value (features K ! 7) = SIZE_MAX"
    by (simp add: features_def mkFeature_def)
  have mx: "int (unat (SIZE_MAX :: 'a word)) = 2 ^ LENGTH('a) - 1"
    by (simp add: SIZE_MAX_def unsigned_minus_1_eq_mask mask_eq_exp_minus_1)
  from a b c d e f mx show ?thesis
    by blast
qed

theorem value_above_LONG_MAX_rejected_witness:
  "fst (Get \<lparr>cur = ''fill=9223372036854775808'', done = False\<rparr> ([], 0 :: 64 word, False)) = False
   \<and> fst (SetFromProperties lp64 ''fill=9223372036854775808'' zero_Config) = False
   \<and> fill_on_alloc_bytes (fst (snd (SetFromProperties lp64 ''fill=5'' zero_Config))) = 5
   \<and> fill_on_free_bytes (fst (snd (SetFromProperties lp64 ''fill=5'' zero_Config))) = 5"
proof -
  define r where "r = SetFromProperties lp64 ''fill=5'' zero_Config"
  have nz: "nonzero_bits lp64"
    by (simp add: nonzero_bits_def lp64_def)
  have at: "loop_at 0 (features lp64) \<lparr>cur = ''fill=9223372036854775808'', done = False\<rparr> ([], 0, False) False
      (initial_values lp64 zero_Config)
      = Some (\<lparr>cur = ''fill=9223372036854775808'', done = False\<rparr>, ([], 0, False), False,
          initial_values lp64 zero_Config)"
    by simp
  have shape: "cur \<lparr>cur = ''fill=9223372036854775808'', done = False\<rparr>
      = [] @ ''fill'' @ [] @ CHR ''='' # [] @ [] @ ''9223372036854775808'' @ []"
    by simp
  have nm: "\<forall>c\<in>set ''fill''. name_char c"
    by (simp add: name_char_def isspace_def)
  have ds: "\<forall>c\<in>set ''9223372036854775808''. isdigit c"
    by (simp add: isdigit_def)
  have big: "digits_value 0 ''9223372036854775808'' > 2 ^ (LENGTH(64) - 1) - 1"
    by simp
  have ok: "SetFromProperties lp64 ''fill=5'' zero_Config = (True, fst (snd r), [])"
    unfolding r_def by (simp add: eval_defs lp64_def zero_Config_def)
  have ts: "[(''fill'', 5 :: 64 word, True)] = tokens \<lparr>cur = ''fill=5'', done = False\<rparr> ([], 0, False)"
    by (simp add: tokens.simps eval_defs)
  have la: "filter (\<lambda>t. fst t \<in> {''fill'', ''fill_on_alloc''}) [(''fill'', 5 :: 64 word, True)]
      = [] @ [(''fill'', 5, True)]"
    by simp
  have lf: "filter (\<lambda>t. fst t \<in> {''fill'', ''fill_on_free''}) [(''fill'', 5 :: 64 word, True)]
      = [] @ [(''fill'', 5, True)]"
    by simp
  from value_above_LONG_MAX_rejected [OF nz at shape _ nm _ _ _ ds _ big ok ts,
      of "[]" "''fill''" 5 "[]" "''fill''" 5] la lf
  show ?thesis
    by (simp add: r_def)
qed

end
